theory Spec2Isabelle
  imports Complex_Main
begin

text \<open>
  A shallow embedding of the document question-answering pipeline of the repository
  (\<open>src/ingest.py\<close>, \<open>src/kg.py\<close>, \<open>src/vector_store.py\<close>, \<open>src/rag_chain.py\<close>):
  PDF ingestion with page extraction and image description, chunk storage, extraction of
  triples into a knowledge graph, graph queries with a relevance filter, and the
  synthesis of an answer with a confidence. The definitions follow the Python functions;
  the language models, the graph store, the vector store, the PDF reader and the file
  system are parameters. The theorems settle the claims C1 to C10 of the specification.
\<close>

section \<open>Python strings\<close>

text \<open>
  A Python \<open>str\<close> is modelled as a \<open>string\<close>: a list of 8-bit code points (the Latin-1
  range of Unicode). \<open>len\<close> is \<open>length\<close>, truthiness of a string is \<open>s \<noteq> []\<close>.
  The string methods the program calls are written out below for this range.
\<close>

text \<open>\<open>str.isspace\<close> on one code point below 256: TAB, LF, VT, FF, CR, FS, GS, RS, US,
  SPACE, NEL and NBSP.\<close>

definition isspace :: "char \<Rightarrow> bool" where
  "isspace c = (of_char c \<in> {9, 10, 11, 12, 13, 28, 29, 30, 31, 32, 133, 160 :: nat})"

text \<open>\<open>s.strip()\<close>: whitespace removed at both ends.\<close>

definition lstrip :: "string \<Rightarrow> string" where
  "lstrip s = dropWhile isspace s"

definition rstrip :: "string \<Rightarrow> string" where
  "rstrip s = rev (dropWhile isspace (rev s))"

definition strip :: "string \<Rightarrow> string" where
  "strip s = rstrip (lstrip s)"

text \<open>\<open>s.lower()\<close>: \<open>A\<close>..\<open>Z\<close> and the Latin-1 capitals \<open>0xC0\<close>..\<open>0xDE\<close> (without the
  multiplication sign \<open>0xD7\<close>) move up by 32; every other code point stays.\<close>

definition lower_char :: "char \<Rightarrow> char" where
  "lower_char c =
     (let n = (of_char c :: nat) in
      if (65 \<le> n \<and> n \<le> 90) \<or> (192 \<le> n \<and> n \<le> 222 \<and> n \<noteq> 215)
      then char_of (n + 32) else c)"

definition lower :: "string \<Rightarrow> string" where
  "lower s = map lower_char s"

text \<open>\<open>needle in hay\<close> on strings: \<open>needle\<close> occurs as a contiguous substring.\<close>

fun startswith :: "string \<Rightarrow> string \<Rightarrow> bool" where
  "startswith hay [] = True"
| "startswith [] (n # ns) = False"
| "startswith (h # hs) (n # ns) = (h = n \<and> startswith hs ns)"

fun str_in :: "string \<Rightarrow> string \<Rightarrow> bool" where
  "str_in needle [] = (needle = [])"
| "str_in needle (h # hs) = (startswith (h # hs) needle \<or> str_in needle hs)"

text \<open>\<open>s.split(sep)\<close> for a one-character separator: every occurrence splits, empty
  fields are kept, and the result always has at least one field.\<close>

fun split_acc :: "char \<Rightarrow> string \<Rightarrow> string \<Rightarrow> string list" where
  "split_acc sep cur [] = [rev cur]"
| "split_acc sep cur (c # cs) =
     (if c = sep then rev cur # split_acc sep [] cs else split_acc sep (c # cur) cs)"

definition split :: "string \<Rightarrow> char \<Rightarrow> string list" where
  "split s sep = split_acc sep [] s"

text \<open>\<open>s.splitlines()\<close>: a line ends at LF, CR, CR LF, VT, FF, FS, GS, RS or NEL; the
  line ends are dropped and a final line end opens no further line.\<close>

definition is_linebreak :: "char \<Rightarrow> bool" where
  "is_linebreak c = (of_char c \<in> {10, 11, 12, 13, 28, 29, 30, 133 :: nat})"

fun splitlines_acc :: "string \<Rightarrow> string \<Rightarrow> string list" where
  "splitlines_acc cur [] = (if cur = [] then [] else [rev cur])"
| "splitlines_acc cur [c] =
     (if is_linebreak c then [rev cur] else [rev (c # cur)])"
| "splitlines_acc cur (c # d # cs) =
     (if c = CHR 0x0D \<and> d = CHR 0x0A then rev cur # splitlines_acc [] cs
      else if is_linebreak c then rev cur # splitlines_acc [] (d # cs)
      else splitlines_acc (c # cur) (d # cs))"

definition splitlines :: "string \<Rightarrow> string list" where
  "splitlines s = splitlines_acc [] s"


text \<open>\<open>str(n)\<close> for an integer: decimal digits, with a minus sign below zero.\<close>

definition digit_char :: "nat \<Rightarrow> char" where
  "digit_char d = char_of (48 + d)"

function str_nat :: "nat \<Rightarrow> string" where
  "str_nat n = (if n < 10 then [digit_char n] else str_nat (n div 10) @ [digit_char (n mod 10)])"
  by pat_completeness auto
termination
  by (relation "measure id") auto

declare str_nat.simps [simp del]


text \<open>\<open>s.isdigit()\<close>: non-empty, and every code point is a digit. Below 256 the digits
  are \<open>0\<close>..\<open>9\<close> and the superscripts two, three and one (\<open>0xB2\<close>, \<open>0xB3\<close>, \<open>0xB9\<close>).
  \<open>int(s)\<close> accepts only the former: on a superscript it raises \<open>ValueError\<close>.\<close>

definition is_ascii_digit :: "char \<Rightarrow> bool" where
  "is_ascii_digit c = (48 \<le> (of_char c :: nat) \<and> (of_char c :: nat) \<le> 57)"

definition isdigit_char :: "char \<Rightarrow> bool" where
  "isdigit_char c = (is_ascii_digit c \<or> of_char c \<in> {178, 179, 185 :: nat})"

definition isdigit :: "string \<Rightarrow> bool" where
  "isdigit s = (s \<noteq> [] \<and> list_all isdigit_char s)"

section \<open>Exceptions\<close>

text \<open>A raised Python exception, carrying what \<open>str(e)\<close> gives. A computation that may
  raise returns \<open>exn + 'a\<close>, with \<open>Inl\<close> for the raise.\<close>

datatype exn = Exn (str_of_exn: string)

definition int_of_str :: "string \<Rightarrow> exn + nat" where
  "int_of_str s =
     (if list_all is_ascii_digit s
      then Inr (foldl (\<lambda>acc c. 10 * acc + (of_char c - 48)) 0 s)
      else Inl (Exn ''invalid literal for int() with base 10''))"

section \<open>Triples and the line parser (kg.py)\<close>

text \<open>A triple is the dictionary with the keys \<open>"s"\<close>, \<open>"p"\<close> and \<open>"o"\<close>.\<close>

record triple =
  t_s :: string
  t_p :: string
  t_o :: string

text \<open>\<open>s, p, o = parts\<close>: unpacking raises \<open>ValueError\<close> unless there are exactly three
  values.\<close>

definition unpack3 :: "string list \<Rightarrow> exn + (string \<times> string \<times> string)" where
  "unpack3 parts =
     (case parts of
        [a, b, c] \<Rightarrow> Inr (a, b, c)
      | _ \<Rightarrow> Inl (Exn ''wrong number of values to unpack (expected 3)''))"

text \<open>The body of the \<open>for line in content.splitlines()\<close> loop of
  \<open>extract_triples_from_text\<close>, with the list \<open>triples\<close> as accumulator. A raise inside
  the loop ends it.\<close>

fun parse_lines :: "string list \<Rightarrow> triple list \<Rightarrow> exn + triple list" where
  "parse_lines [] triples = Inr triples"
| "parse_lines (line0 # rest) triples =
     (let line = strip line0 in
      if line = [] \<or> \<not> str_in ''|'' line then parse_lines rest triples
      else
        let parts = map strip (split line CHR ''|'') in
        if length parts \<noteq> 3 then parse_lines rest triples
        else
          (case unpack3 parts of
             Inl e \<Rightarrow> Inl e
           | Inr (a, b, c) \<Rightarrow>
               if a \<noteq> [] \<and> b \<noteq> [] \<and> c \<noteq> []
               then parse_lines rest (triples @ [\<lparr>t_s = a, t_p = b, t_o = c\<rparr>])
               else parse_lines rest triples))"

text \<open>Lines 70 to 84: from the raw \<open>response.content\<close> to the returned list.\<close>

definition parse_triples :: "string \<Rightarrow> exn + triple list" where
  "parse_triples raw = (let content = strip raw in parse_lines (splitlines content) [])"

text \<open>The spec's reading of one line: split it at the pipes, trim every field, and keep
  the line exactly when there are three fields and none is empty.\<close>

definition spec_line_triple :: "string \<Rightarrow> triple option" where
  "spec_line_triple line =
     (let fields = map strip (split line CHR ''|'') in
      if length fields = 3 \<and> list_all (\<lambda>f. f \<noteq> []) fields
      then Some \<lparr>t_s = fields ! 0, t_p = fields ! 1, t_o = fields ! 2\<rparr>
      else None)"

section \<open>Documents\<close>

type_synonym bytes = "char list"

text \<open>A LangChain \<open>Document\<close>: its text and the entries of its \<open>metadata\<close> dictionary that
  the program reads or writes; \<open>None\<close> is a missing key.\<close>

record document =
  page_content :: string
  md_source :: "string option"
  md_page :: "int option"
  md_doc_id :: "string option"
  md_type :: "string option"
  md_image_path :: "string option"

section \<open>The outside world\<close>

text \<open>What a language model is asked. The fixed instruction texts are left out; a prompt
  keeps the data the program puts into it. An image travels base64-encoded inside a data
  URL; the prompt keeps its bytes.\<close>

datatype prompt =
    Triple_Extraction string
  | Entity_Extraction string
  | Relevance_Filter string string
  | Rag_Answer string string string string string
  | Vision string bytes

text \<open>Every line the program prints, one constructor for each \<open>print\<close> call.\<close>

datatype printed =
    Connected_To_Neo4j
  | Could_Not_Connect_To_Neo4j exn
  | Knowledge_Graph_Disabled
  | KG_Rate_Limit_Retrying nat
  | Error_Extracting_Triples nat nat exn
  | Failed_To_Extract_Triples nat
  | Neo4j_Not_Available_Skipping
  | Building_KG nat nat
  | No_Triples_Extracted
  | Uploaded_KG_Batch nat nat
  | Error_Extracting_Entities exn
  | Error_Filtering_Triples exn
  | Neo4j_Not_Available_Empty_Results
  | Extracted_Entities "string list"
  | No_Entities_Found
  | No_Matching_Triples "string list"
  | Found_Candidates nat
  | Filter_Removed_All
  | Found_Relevant nat nat
  | Rate_Limit_Retrying nat
  | Error_Analyzing_Image exn
  | Page_Seems_Scanned nat
  | Processing_File string nat bool
  | Processing_Pages nat nat
  | Skipping_Page nat exn
  | Uploaded_Batch nat nat
  | Added_Batch nat nat

text \<open>The services outside the program. Each one answers as a function of the number
  of outside calls made before (the \<open>clock\<close> of the world) and of what it is sent, and
  either returns or raises. Parsing a PDF, splitting text and writing a file depend on
  their input only: the PDF is fixed data, and the file system accepts or refuses a path
  in the same way during the whole run.\<close>

record embedded_image =
  image_data :: bytes
  image_ext :: string

record pdf_page =
  get_text :: "exn + string"
  get_pixmap_png :: "exn + bytes"
  get_images :: "exn + (exn + embedded_image) list"

type_synonym pdf = "(exn + pdf_page) list"

record env =
  llm_invoke :: "nat \<Rightarrow> prompt \<Rightarrow> exn + string"
  llm_vision_invoke :: "nat \<Rightarrow> prompt \<Rightarrow> exn + string"
  llm_deterministic_invoke :: "nat \<Rightarrow> prompt \<Rightarrow> exn + string"
  neo4j_connect :: "nat \<Rightarrow> exn option"
  neo4j_write :: "nat \<Rightarrow> triple list \<Rightarrow> string \<Rightarrow> exn option"
  neo4j_match :: "nat \<Rightarrow> string option \<Rightarrow> string list \<Rightarrow> exn + triple list"
  pgvector_connect :: "nat \<Rightarrow> exn option"
  add_documents :: "nat \<Rightarrow> document list \<Rightarrow> exn option"
  write_file :: "string \<Rightarrow> bytes \<Rightarrow> exn option"
  fitz_open :: "bytes \<Rightarrow> exn + pdf"
  split_documents :: "document list \<Rightarrow> exn + document list"

text \<open>The state the program changes: the count of outside calls, the seconds passed to
  each \<open>time.sleep\<close>, the printed lines, whether the module variable \<open>_driver\<close> of kg.py
  holds a driver, the graph transactions that ran, the batches added to the vector store,
  the files written, the calls of the progress callback, and the number of PDF handles
  that are open.\<close>

record world =
  clock :: nat
  slept :: "nat list"
  printed_lines :: "printed list"
  driver :: bool
  graph_tx :: "(triple list \<times> string) list"
  vector_added :: "document list list"
  files_written :: "(string \<times> bytes) list"
  progress :: "(nat \<times> nat) list"
  open_handles :: nat

definition tick :: "world \<Rightarrow> world" where
  "tick w = w\<lparr>clock := Suc (clock w)\<rparr>"

definition print :: "printed \<Rightarrow> world \<Rightarrow> world" where
  "print l w = w\<lparr>printed_lines := printed_lines w @ [l]\<rparr>"

definition sleep :: "nat \<Rightarrow> world \<Rightarrow> world" where
  "sleep secs w = w\<lparr>slept := slept w @ [secs]\<rparr>"

section \<open>kg.py\<close>

text \<open>\<open>get_driver\<close>: a driver that is held is returned as it is. Otherwise the program
  connects and runs a test query; when either raises it prints two lines and holds no
  driver. The result says whether a driver is returned (\<open>False\<close> is \<open>None\<close>).\<close>

definition get_driver :: "env \<Rightarrow> world \<Rightarrow> bool \<times> world" where
  "get_driver env w =
     (if \<not> driver w then
        (case neo4j_connect env (clock w) of
           None \<Rightarrow>
             let w1 = print Connected_To_Neo4j ((tick w)\<lparr>driver := True\<rparr>) in (driver w1, w1)
         | Some e \<Rightarrow>
             let w1 = (print Knowledge_Graph_Disabled
                        (print (Could_Not_Connect_To_Neo4j e) (tick w)))\<lparr>driver := False\<rparr>
             in (driver w1, w1))
      else (driver w, w))"

text \<open>The test of the \<open>except\<close> clauses: \<open>"429" in err_str or "rate_limit" in err_str\<close>
  with \<open>err_str = str(e).lower()\<close>.\<close>

definition is_rate_limit :: "exn \<Rightarrow> bool" where
  "is_rate_limit e =
     (let err_str = lower (str_of_exn e) in str_in ''429'' err_str \<or> str_in ''rate_limit'' err_str)"

definition max_retries :: nat where
  "max_retries = 12"

text \<open>\<open>extract_triples_from_text\<close>, the loop \<open>for attempt in range(max_retries)\<close> from
  \<open>attempt\<close> on. The \<open>try\<close> holds the call of the model and the line parser; the
  \<open>except\<close> clause waits and goes on, or prints and returns the empty list.\<close>

function extract_attempts :: "env \<Rightarrow> string \<Rightarrow> nat \<Rightarrow> world \<Rightarrow> triple list \<times> world" where
  "extract_attempts env text attempt w =
     (if attempt < max_retries then
        (case (case llm_invoke env (clock w) (Triple_Extraction text) of
                 Inl e \<Rightarrow> Inl e
               | Inr content \<Rightarrow> parse_triples content) of
           Inr triples \<Rightarrow> (triples, tick w)
         | Inl e \<Rightarrow>
             if is_rate_limit e \<and> attempt < max_retries - 1 then
               let wait_time = 2 ^ attempt + 2 in
               extract_attempts env text (Suc attempt)
                 (sleep wait_time (print (KG_Rate_Limit_Retrying wait_time) (tick w)))
             else
               let w1 = print (Error_Extracting_Triples (attempt + 1) max_retries e) (tick w) in
               if attempt = max_retries - 1
               then ([], print (Failed_To_Extract_Triples max_retries) w1)
               else ([], w1))
      else ([], w))"
  by pat_completeness auto
termination
  by (relation "measure (\<lambda>(env, text, attempt, w). max_retries - attempt)") auto

declare extract_attempts.simps [simp del]

definition extract_triples_from_text :: "env \<Rightarrow> string \<Rightarrow> world \<Rightarrow> triple list \<times> world" where
  "extract_triples_from_text env text w =
     (if strip text = [] then ([], w) else extract_attempts env text 0 w)"

text \<open>\<open>chunks[::2]\<close>.\<close>

fun slice_step2 :: "'a list \<Rightarrow> 'a list" where
  "slice_step2 [] = []"
| "slice_step2 [x] = [x]"
| "slice_step2 (x # y # xs) = x # slice_step2 xs"

text \<open>\<open>upsert_kg_from_chunks\<close>, the loop \<open>for ch in chunks_to_process\<close> with the list
  \<open>all_triples\<close>.\<close>

fun collect_triples :: "env \<Rightarrow> document list \<Rightarrow> triple list \<Rightarrow> world \<Rightarrow> triple list \<times> world" where
  "collect_triples env [] all_triples w = (all_triples, w)"
| "collect_triples env (ch # rest) all_triples w =
     (let text = page_content ch in
      if length text < 100 then collect_triples env rest all_triples w
      else
        (case extract_triples_from_text env text w of
           (triples, w1) \<Rightarrow> collect_triples env rest (all_triples @ triples) (sleep 1 w1)))"

definition KG_BATCH_SIZE :: nat where
  "KG_BATCH_SIZE = 500"

text \<open>The loop \<open>for i in range(0, len(all_triples), BATCH_SIZE)\<close> from \<open>i\<close> on: one
  \<open>session.run\<close> for each slice \<open>all_triples[i:i + BATCH_SIZE]\<close>. A raise leaves the
  loop and the function.\<close>

function upload_batches ::
  "env \<Rightarrow> triple list \<Rightarrow> string \<Rightarrow> nat \<Rightarrow> world \<Rightarrow> (exn + unit) \<times> world" where
  "upload_batches env all_triples doc_id i w =
     (if i < length all_triples then
        (let batch = take KG_BATCH_SIZE (drop i all_triples) in
         case neo4j_write env (clock w) batch doc_id of
           Some e \<Rightarrow> (Inl e, tick w)
         | None \<Rightarrow>
             upload_batches env all_triples doc_id (i + KG_BATCH_SIZE)
               (print (Uploaded_KG_Batch (i div KG_BATCH_SIZE + 1) (length batch))
                  ((tick w)\<lparr>graph_tx := graph_tx w @ [(batch, doc_id)]\<rparr>)))
      else (Inr (), w))"
  by pat_completeness auto
termination
  by (relation "measure (\<lambda>(env, all_triples, doc_id, i, w). length all_triples - i)")
     (auto simp: KG_BATCH_SIZE_def)

declare upload_batches.simps [simp del]

definition upsert_kg_from_chunks ::
  "env \<Rightarrow> document list \<Rightarrow> string \<Rightarrow> world \<Rightarrow> (exn + unit) \<times> world" where
  "upsert_kg_from_chunks env chunks doc_id w =
     (case get_driver env w of
        (drv, w1) \<Rightarrow>
          if \<not> drv then (Inr (), print Neo4j_Not_Available_Skipping w1)
          else
            let chunks_to_process = slice_step2 chunks;
                w2 = print (Building_KG (length chunks_to_process) (length chunks)) w1
            in
            (case collect_triples env chunks_to_process [] w2 of
               (all_triples, w3) \<Rightarrow>
                 if all_triples = [] then (Inr (), print No_Triples_Extracted w3)
                 else upload_batches env all_triples doc_id 0 w3))"

text \<open>\<open>extract_entities_from_query\<close>.\<close>

definition extract_entities_from_query :: "env \<Rightarrow> string \<Rightarrow> world \<Rightarrow> string list \<times> world" where
  "extract_entities_from_query env query w =
     (if strip query = [] then ([], w)
      else
        (case llm_deterministic_invoke env (clock w) (Entity_Extraction query) of
           Inl e \<Rightarrow> ([], print (Error_Extracting_Entities e) (tick w))
         | Inr c \<Rightarrow>
             let content = strip c in
             if content = [] then ([], tick w)
             else ([strip e. e \<leftarrow> split content CHR ''|'', strip e \<noteq> []], tick w)))"

text \<open>\<open>filter_relevant_triples\<close>. The numbered list of the triples goes into the prompt;
  the answer is cut at the commas and every part that \<open>isdigit\<close> is read by \<open>int\<close>.\<close>

fun triples_text_from :: "nat \<Rightarrow> triple list \<Rightarrow> string" where
  "triples_text_from i [] = []"
| "triples_text_from i (t # ts) =
     str_nat i @ '': '' @ t_s t @ '' | '' @ t_p t @ '' | '' @ t_o t @ [CHR 0x0A]
       @ triples_text_from (Suc i) ts"

fun parse_indices :: "string list \<Rightarrow> nat list \<Rightarrow> exn + nat list" where
  "parse_indices [] indices = Inr indices"
| "parse_indices (part0 # rest) indices =
     (let part = strip part0 in
      if isdigit part then
        (case int_of_str part of
           Inl e \<Rightarrow> Inl e
         | Inr n \<Rightarrow> parse_indices rest (indices @ [n]))
      else parse_indices rest indices)"

definition filter_relevant_triples ::
  "env \<Rightarrow> string \<Rightarrow> triple list \<Rightarrow> world \<Rightarrow> triple list \<times> world" where
  "filter_relevant_triples env query triples w =
     (if triples = [] then ([], w)
      else
        let triples_text = triples_text_from 0 triples in
        (case llm_deterministic_invoke env (clock w) (Relevance_Filter query triples_text) of
           Inl e \<Rightarrow> (triples, print (Error_Filtering_Triples e) (tick w))
         | Inr c \<Rightarrow>
             let content = strip c in
             if str_in ''NONE'' content then ([], tick w)
             else
               (case parse_indices (split content CHR '','') [] of
                  Inl e \<Rightarrow> (triples, print (Error_Filtering_Triples e) (tick w))
                | Inr indices \<Rightarrow>
                    ([triples ! i. i \<leftarrow> indices, i < length triples], tick w))))"

text \<open>\<open>query_kg_for_query\<close>. The test \<open>if doc_id\<close> picks the query: a \<open>doc_id\<close> scopes
  it when it is given and not empty. The graph answers with its matches in its own order,
  and \<open>LIMIT 50\<close> of the query keeps the first 50.\<close>

definition doc_scope :: "string option \<Rightarrow> string option" where
  "doc_scope doc_id = (case doc_id of None \<Rightarrow> None | Some d \<Rightarrow> if d \<noteq> [] then Some d else None)"

definition query_kg_for_query ::
  "env \<Rightarrow> string \<Rightarrow> string option \<Rightarrow> world \<Rightarrow> (exn + triple list) \<times> world" where
  "query_kg_for_query env query doc_id w =
     (case get_driver env w of
        (drv, w1) \<Rightarrow>
          if \<not> drv then (Inr [], print Neo4j_Not_Available_Empty_Results w1)
          else
            (case extract_entities_from_query env query w1 of
               (entities, w2) \<Rightarrow>
                 let w3 = print (Extracted_Entities entities) w2 in
                 if entities = [] then (Inr [], print No_Entities_Found w3)
                 else
                   (case neo4j_match env (clock w3) (doc_scope doc_id) entities of
                      Inl e \<Rightarrow> (Inl e, tick w3)
                    | Inr matches \<Rightarrow>
                        let rows = take 50 matches; w4 = tick w3 in
                        if rows = [] then (Inr [], print (No_Matching_Triples entities) w4)
                        else
                          let w5 = print (Found_Candidates (length rows)) w4 in
                          (case filter_relevant_triples env query rows w5 of
                             (relevant_rows, w6) \<Rightarrow>
                               if relevant_rows = []
                               then (Inr (take 10 rows), print Filter_Removed_All w6)
                               else (Inr relevant_rows,
                                     print (Found_Relevant (length relevant_rows) (length rows)) w6)))))"

section \<open>vector\_store.py\<close>

definition VS_BATCH_SIZE :: nat where
  "VS_BATCH_SIZE = 100"

text \<open>\<open>add_chunks\<close>: the store is built first, then the loop
  \<open>for i in range(0, len(chunks), batch_size)\<close> adds one slice after the other.\<close>

function add_batches :: "env \<Rightarrow> document list \<Rightarrow> nat \<Rightarrow> world \<Rightarrow> (exn + unit) \<times> world" where
  "add_batches env chunks i w =
     (if i < length chunks then
        (let batch = take VS_BATCH_SIZE (drop i chunks) in
         case add_documents env (clock w) batch of
           Some e \<Rightarrow> (Inl e, tick w)
         | None \<Rightarrow>
             add_batches env chunks (i + VS_BATCH_SIZE)
               (print (Added_Batch (i div VS_BATCH_SIZE + 1) (length batch))
                  ((tick w)\<lparr>vector_added := vector_added w @ [batch]\<rparr>)))
      else (Inr (), w))"
  by pat_completeness auto
termination
  by (relation "measure (\<lambda>(env, chunks, i, w). length chunks - i)")
     (auto simp: VS_BATCH_SIZE_def)

declare add_batches.simps [simp del]

definition add_chunks :: "env \<Rightarrow> document list \<Rightarrow> world \<Rightarrow> (exn + unit) \<times> world" where
  "add_chunks env chunks w =
     (case pgvector_connect env (clock w) of
        Some e \<Rightarrow> (Inl e, tick w)
      | None \<Rightarrow> add_batches env chunks 0 (tick w))"

section \<open>ingest.py\<close>

text \<open>\<open>_analyze_image_with_gpt\<close>, the loop \<open>for attempt in range(max_retries)\<close> from
  \<open>attempt\<close> on. A raise of the inner \<open>except\<close> clause is \<open>Inl\<close>; \<open>Inr None\<close> is the loop
  running out, where the function would return \<open>None\<close>.\<close>

function analyze_attempts ::
  "env \<Rightarrow> prompt \<Rightarrow> nat \<Rightarrow> world \<Rightarrow> (exn + string option) \<times> world" where
  "analyze_attempts env message attempt w =
     (if attempt < max_retries then
        (case llm_vision_invoke env (clock w) message of
           Inr content \<Rightarrow> (Inr (Some (strip content)), tick w)
         | Inl e \<Rightarrow>
             if is_rate_limit e \<and> attempt < max_retries - 1 then
               let wait_time = 2 ^ attempt + 2 in
               analyze_attempts env message (Suc attempt)
                 (sleep wait_time (print (Rate_Limit_Retrying wait_time) (tick w)))
             else (Inl e, tick w))
      else (Inr None, w))"
  by pat_completeness auto
termination
  by (relation "measure (\<lambda>(env, message, attempt, w). max_retries - attempt)") auto

declare analyze_attempts.simps [simp del]

text \<open>The outer \<open>try\<close> turns every raise into the empty string.\<close>

definition analyze_image_with_gpt ::
  "env \<Rightarrow> bytes \<Rightarrow> string \<Rightarrow> world \<Rightarrow> string option \<times> world" where
  "analyze_image_with_gpt env img_bytes prompt_text w =
     (case analyze_attempts env (Vision prompt_text img_bytes) 0 w of
        (Inl e, w1) \<Rightarrow> (Some [], print (Error_Analyzing_Image e) w1)
      | (Inr r, w1) \<Rightarrow> (r, w1))"

definition OCR_PROMPT :: string where
  "OCR_PROMPT = ''Transcribe the text on this page exactly as it appears. If there is Tamil text, transcribe it accurately in Tamil.''"

definition DESCRIBE_PROMPT :: string where
  "DESCRIBE_PROMPT = ''Describe this image in detail. If it's a chart or diagram, explain the data. If it contains text, transcribe it.''"

definition STATIC_IMG_DIR :: string where
  "STATIC_IMG_DIR = ''static/images''"

definition load_page :: "pdf \<Rightarrow> nat \<Rightarrow> exn + pdf_page" where
  "load_page doc_pdf page_num =
     (if page_num < length doc_pdf then doc_pdf ! page_num
      else Inl (Exn ''page not in document''))"

text \<open>\<open>_process_pdf_page\<close>, the loop \<open>for img_index, img in enumerate(image_list)\<close>.
  An entry of the list is \<open>Inl\<close> when \<open>extract_image\<close> raises on it. A description
  counts when it is neither \<open>None\<close> nor empty.\<close>

fun process_images ::
  "env \<Rightarrow> (exn + embedded_image) list \<Rightarrow> nat \<Rightarrow> nat \<Rightarrow> string \<Rightarrow> string \<Rightarrow> document list
     \<Rightarrow> world \<Rightarrow> (exn + document list) \<times> world" where
  "process_images env [] img_index page_num doc_id file_name docs w = (Inr docs, w)"
| "process_images env (img # rest) img_index page_num doc_id file_name docs w =
     (case img of
        Inl e \<Rightarrow> (Inl e, w)
      | Inr base_image \<Rightarrow>
          let image_bytes = image_data base_image; ext = image_ext base_image in
          if length image_bytes < 10000
          then process_images env rest (Suc img_index) page_num doc_id file_name docs w
          else
            let image_filename =
                  doc_id @ ''_p'' @ str_nat (page_num + 1) @ ''_i'' @ str_nat img_index @ ''.'' @ ext;
                image_path = STATIC_IMG_DIR @ ''/'' @ image_filename
            in
            (case write_file env image_path image_bytes of
               Some e \<Rightarrow> (Inl e, w)
             | None \<Rightarrow>
                 (case analyze_image_with_gpt env image_bytes DESCRIBE_PROMPT
                         (w\<lparr>files_written := files_written w @ [(image_path, image_bytes)]\<rparr>) of
                    (description, w2) \<Rightarrow>
                      process_images env rest (Suc img_index) page_num doc_id file_name
                        (case description of
                           None \<Rightarrow> docs
                         | Some t \<Rightarrow>
                             if t \<noteq> []
                             then docs @ [\<lparr>page_content = ''Image Description: '' @ t,
                                           md_source = Some file_name,
                                           md_page = Some (int page_num + 1),
                                           md_doc_id = Some doc_id,
                                           md_type = Some ''image'',
                                           md_image_path = Some image_path\<rparr>]
                             else docs)
                        w2)))"

text \<open>\<open>_process_pdf_page\<close>.\<close>

definition process_pdf_page ::
  "env \<Rightarrow> pdf \<Rightarrow> nat \<Rightarrow> string \<Rightarrow> string \<Rightarrow> bool \<Rightarrow> world \<Rightarrow> (exn + document list) \<times> world" where
  "process_pdf_page env doc_pdf page_num doc_id file_name deep_ocr w =
     (case load_page doc_pdf page_num of
        Inl e \<Rightarrow> (Inl e, w)
      | Inr page \<Rightarrow>
          (case get_text page of
             Inl e \<Rightarrow> (Inl e, w)
           | Inr text0 \<Rightarrow>
               (case (if length (strip text0) < 50 \<and> deep_ocr then
                        (let w1 = print (Page_Seems_Scanned (page_num + 1)) w in
                         case get_pixmap_png page of
                           Inl e \<Rightarrow> (Inl e, w1)
                         | Inr img_bytes \<Rightarrow>
                             (case analyze_image_with_gpt env img_bytes OCR_PROMPT w1 of
                                (ocr_text, w2) \<Rightarrow>
                                  (Inr (case ocr_text of
                                          None \<Rightarrow> text0
                                        | Some t \<Rightarrow> if t \<noteq> [] then t else text0), w2)))
                      else (Inr text0, w)) of
                  (Inl e, w3) \<Rightarrow> (Inl e, w3)
                | (Inr text, w3) \<Rightarrow>
                    let docs =
                          (if strip text \<noteq> []
                           then [\<lparr>page_content = text,
                                  md_source = Some file_name,
                                  md_page = Some (int page_num + 1),
                                  md_doc_id = Some doc_id,
                                  md_type = Some ''text'',
                                  md_image_path = None\<rparr>]
                           else [])
                    in
                    if deep_ocr then
                      (case get_images page of
                         Inl e \<Rightarrow> (Inl e, w3)
                       | Inr image_list \<Rightarrow>
                           process_images env image_list 0 page_num doc_id file_name docs w3)
                    else (Inr docs, w3))))"

text \<open>The progress callback: a function of the current page and the total that returns
  or raises; every call is recorded in the world.\<close>

type_synonym callback = "nat \<Rightarrow> nat \<Rightarrow> exn option"

definition call_progress :: "callback \<Rightarrow> nat \<Rightarrow> nat \<Rightarrow> world \<Rightarrow> exn option \<times> world" where
  "call_progress f current_page total_pages w =
     (f current_page total_pages, w\<lparr>progress := progress w @ [(current_page, total_pages)]\<rparr>)"

text \<open>\<open>ingest_pdf\<close>, the loop \<open>for i in range(batch_start, batch_end)\<close> over the page
  numbers that are left, with the list \<open>batch_docs\<close>. The \<open>try\<close> holds the extraction of
  the page, the callback and the delay; the \<open>except\<close> clause prints and goes on.\<close>

fun ingest_pages ::
  "env \<Rightarrow> pdf \<Rightarrow> nat list \<Rightarrow> string \<Rightarrow> string \<Rightarrow> bool \<Rightarrow> callback option \<Rightarrow> nat
     \<Rightarrow> document list \<Rightarrow> world \<Rightarrow> document list \<times> world" where
  "ingest_pages env doc_pdf [] doc_id file_name deep_ocr progress_callback total_pages batch_docs w =
     (batch_docs, w)"
| "ingest_pages env doc_pdf (i # rest) doc_id file_name deep_ocr progress_callback total_pages batch_docs w =
     (case process_pdf_page env doc_pdf i doc_id file_name deep_ocr w of
        (Inl e, w1) \<Rightarrow>
          ingest_pages env doc_pdf rest doc_id file_name deep_ocr progress_callback total_pages
            batch_docs (print (Skipping_Page (i + 1) e) w1)
      | (Inr page_docs, w1) \<Rightarrow>
          (case (case progress_callback of
                   None \<Rightarrow> (None, w1)
                 | Some f \<Rightarrow> call_progress f (i + 1) total_pages w1) of
             (Some e, w2) \<Rightarrow>
               ingest_pages env doc_pdf rest doc_id file_name deep_ocr progress_callback total_pages
                 (batch_docs @ page_docs) (print (Skipping_Page (i + 1) e) w2)
           | (None, w2) \<Rightarrow>
               ingest_pages env doc_pdf rest doc_id file_name deep_ocr progress_callback total_pages
                 (batch_docs @ page_docs) (if deep_ocr then sleep 3 w2 else w2)))"

definition BATCH_SIZE :: nat where
  "BATCH_SIZE = 50"

text \<open>The loop \<open>for batch_start in range(0, total_pages, BATCH_SIZE)\<close> from \<open>batch_start\<close>
  on. Splitting, \<open>add_chunks\<close> and \<open>upsert_kg_from_chunks\<close> stand outside every \<open>try\<close>:
  a raise of theirs leaves the loop and \<open>ingest_pdf\<close>.\<close>

function ingest_batches ::
  "env \<Rightarrow> pdf \<Rightarrow> string \<Rightarrow> string \<Rightarrow> bool \<Rightarrow> callback option \<Rightarrow> nat \<Rightarrow> nat \<Rightarrow> world
     \<Rightarrow> (exn + unit) \<times> world" where
  "ingest_batches env doc_pdf doc_id file_name deep_ocr progress_callback total_pages batch_start w =
     (if batch_start < total_pages then
        (let batch_end = min (batch_start + BATCH_SIZE) total_pages;
             w1 = print (Processing_Pages (batch_start + 1) batch_end) w
         in
         case ingest_pages env doc_pdf [batch_start..<batch_end] doc_id file_name deep_ocr
                progress_callback total_pages [] w1 of
           (batch_docs, w2) \<Rightarrow>
             if batch_docs \<noteq> [] then
               (case split_documents env batch_docs of
                  Inl e \<Rightarrow> (Inl e, w2)
                | Inr chunks \<Rightarrow>
                    (case add_chunks env chunks w2 of
                       (Inl e, w3) \<Rightarrow> (Inl e, w3)
                     | (Inr u, w3) \<Rightarrow>
                         (case upsert_kg_from_chunks env chunks doc_id w3 of
                            (Inl e, w4) \<Rightarrow> (Inl e, w4)
                          | (Inr v, w4) \<Rightarrow>
                              ingest_batches env doc_pdf doc_id file_name deep_ocr progress_callback
                                total_pages (batch_start + BATCH_SIZE)
                                (print (Uploaded_Batch (batch_start div BATCH_SIZE + 1) (length chunks))
                                   w4))))
             else
               ingest_batches env doc_pdf doc_id file_name deep_ocr progress_callback total_pages
                 (batch_start + BATCH_SIZE) w2)
      else (Inr (), w))"
  by pat_completeness auto
termination
  by (relation "measure (\<lambda>(env, doc_pdf, doc_id, file_name, deep_ocr, cb, total_pages, batch_start, w).
                  total_pages - batch_start)")
     (auto simp: BATCH_SIZE_def)

declare ingest_batches.simps [simp del]

text \<open>\<open>ingest_pdf\<close>. Opening the PDF gives a handle, \<open>doc_pdf.close()\<close> at the end of the
  function gives it back.\<close>

definition ingest_pdf ::
  "env \<Rightarrow> bytes \<Rightarrow> string \<Rightarrow> string \<Rightarrow> bool \<Rightarrow> callback option \<Rightarrow> world \<Rightarrow> (exn + string) \<times> world" where
  "ingest_pdf env file_bytes file_name doc_id deep_ocr progress_callback w =
     (case fitz_open env file_bytes of
        Inl e \<Rightarrow> (Inl e, w)
      | Inr doc_pdf \<Rightarrow>
          let w1 = w\<lparr>open_handles := Suc (open_handles w)\<rparr>;
              total_pages = length doc_pdf;
              w2 = print (Processing_File file_name total_pages deep_ocr) w1
          in
          (case ingest_batches env doc_pdf doc_id file_name deep_ocr progress_callback total_pages 0 w2 of
             (Inl e, w3) \<Rightarrow> (Inl e, w3)
           | (Inr u, w3) \<Rightarrow> (Inr doc_id, w3\<lparr>open_handles := open_handles w3 - 1\<rparr>)))"

section \<open>rag\_chain.py\<close>











section \<open>Scripts of the outside services, for stating and testing the claims\<close>

text \<open>\<open>throttled calls start n\<close>: the \<open>n\<close> calls numbered \<open>start\<close>, \<open>start + 1\<close>, ... all
  raise an error that carries the rate-limit mark.\<close>

definition throttled :: "(nat \<Rightarrow> exn + 'a) \<Rightarrow> nat \<Rightarrow> nat \<Rightarrow> bool" where
  "throttled calls start n =
     list_all (\<lambda>k. case calls (start + k) of Inl e \<Rightarrow> is_rate_limit e | Inr r \<Rightarrow> False) [0..<n]"

text \<open>The spec's backoff: the wait after attempt number \<open>attempt\<close> (counted from 0) is
  \<open>2 ^ attempt\<close> plus the offset 2.\<close>

definition backoff_waits :: "nat \<Rightarrow> nat list" where
  "backoff_waits n = map (\<lambda>attempt. 2 ^ attempt + 2) [0..<n]"

definition vision_calls :: "env \<Rightarrow> string \<Rightarrow> bytes \<Rightarrow> nat \<Rightarrow> exn + string" where
  "vision_calls env prompt_text img_bytes = (\<lambda>c. llm_vision_invoke env c (Vision prompt_text img_bytes))"

definition triple_calls :: "env \<Rightarrow> string \<Rightarrow> nat \<Rightarrow> exn + string" where
  "triple_calls env text = (\<lambda>c. llm_invoke env c (Triple_Extraction text))"

text \<open>A world in which nothing has happened yet, and services that always answer: the
  models with the empty string, the graph with no match, the PDF reader with a document
  of no pages, the splitter with its input.\<close>

definition fresh_world :: world where
  "fresh_world =
     \<lparr>clock = 0, slept = [], printed_lines = [], driver = False, graph_tx = [],
      vector_added = [], files_written = [], progress = [], open_handles = 0\<rparr>"

definition quiet_env :: env where
  "quiet_env =
     \<lparr>llm_invoke = (\<lambda>c q. Inr []),
      llm_vision_invoke = (\<lambda>c q. Inr []),
      llm_deterministic_invoke = (\<lambda>c q. Inr []),
      neo4j_connect = (\<lambda>c. None),
      neo4j_write = (\<lambda>c ts d. None),
      neo4j_match = (\<lambda>c scope es. Inr []),
      pgvector_connect = (\<lambda>c. None),
      add_documents = (\<lambda>c ds. None),
      write_file = (\<lambda>path data. None),
      fitz_open = (\<lambda>b. Inr []),
      split_documents = (\<lambda>ds. Inr ds)\<rparr>"

text \<open>A model that raises a rate-limit error on its first \<open>n\<close> calls and answers
  afterwards, one that always raises it, and one that raises another error.\<close>

definition rate_limit_error :: exn where
  "rate_limit_error = Exn ''Error code: 429 - Rate limit reached''"

definition throttle_then_answer :: "nat \<Rightarrow> string \<Rightarrow> nat \<Rightarrow> prompt \<Rightarrow> exn + string" where
  "throttle_then_answer n answer = (\<lambda>c q. if c < n then Inl rate_limit_error else Inr answer)"

definition always_throttled :: "nat \<Rightarrow> prompt \<Rightarrow> exn + string" where
  "always_throttled = (\<lambda>c q. Inl rate_limit_error)"

definition connection_error :: "nat \<Rightarrow> prompt \<Rightarrow> exn + string" where
  "connection_error = (\<lambda>c q. Inl (Exn ''Connection reset by peer''))"

text \<open>Documents for the tests: a text chunk of 120 characters, one of 5, and a document
  with no text and no metadata.\<close>

definition text_chunk :: "string \<Rightarrow> document" where
  "text_chunk t =
     \<lparr>page_content = t, md_source = Some ''book.pdf'', md_page = Some 1,
      md_doc_id = Some ''doc-1'', md_type = Some ''text'', md_image_path = None\<rparr>"

definition long_chunk :: document where
  "long_chunk = text_chunk (replicate 120 CHR ''a'')"

definition short_chunk :: document where
  "short_chunk = text_chunk ''short''"


text \<open>A graph with twelve matches for every query, an entity extractor that answers
  \<open>dog | animal\<close>, and a relevance filter that gives the stated answer or raises.\<close>

definition dog_triple :: triple where
  "dog_triple = \<lparr>t_s = ''dog'', t_p = ''is-a'', t_o = ''animal''\<rparr>"

definition graph_env :: "(exn + string) \<Rightarrow> env" where
  "graph_env filter_answer =
     quiet_env
       \<lparr>llm_deterministic_invoke :=
          (\<lambda>c q. case q of
                    Entity_Extraction query \<Rightarrow> Inr ''dog | animal''
                  | Relevance_Filter query triples_text \<Rightarrow> filter_answer
                  | _ \<Rightarrow> Inr []),
        neo4j_match := (\<lambda>c scope entities. Inr (replicate 12 dog_triple))\<rparr>"




text \<open>The spec's reading of the upsert: the chunks at the even indices, of these the ones
  with at least 100 characters of text, and for each of them, in order, one extraction
  followed by the pacing delay of one second.\<close>

definition spec_sampled :: "'a list \<Rightarrow> 'a list" where
  "spec_sampled chunks = map ((!) chunks) (filter even [0..<length chunks])"

definition spec_selected :: "document list \<Rightarrow> document list" where
  "spec_selected chunks = filter (\<lambda>ch. 100 \<le> length (page_content ch)) (spec_sampled chunks)"

fun extract_each :: "env \<Rightarrow> string list \<Rightarrow> triple list \<Rightarrow> world \<Rightarrow> triple list \<times> world" where
  "extract_each env [] collected w = (collected, w)"
| "extract_each env (t # ts) collected w =
     (case extract_triples_from_text env t w of
        (triples, w1) \<Rightarrow> extract_each env ts (collected @ triples) (sleep 1 w1))"

text \<open>A model that answers every extraction with one triple line.\<close>

definition triple_env :: env where
  "triple_env = quiet_env\<lparr>llm_invoke := (\<lambda>c q. Inr ''dog | is-a | animal'')\<rparr>"

text \<open>Whether the extraction of a page raises. It depends on the PDF, the page, the
  document id (it is part of the image paths) and the mode, not on the state of the world
  or on what the vision model answers.\<close>

definition page_raises :: "env \<Rightarrow> pdf \<Rightarrow> nat \<Rightarrow> string \<Rightarrow> bool \<Rightarrow> bool" where
  "page_raises env doc_pdf page_num doc_id deep_ocr =
     isl (fst (process_pdf_page env doc_pdf page_num doc_id [] deep_ocr fresh_world))"

text \<open>The progress callbacks the amended claim expects after the pages \<open>0\<close> to \<open>n - 1\<close>:
  one call \<open>(i + 1, total)\<close> for each page \<open>i\<close> whose extraction does not raise, in page
  order.\<close>

definition spec_progress :: "env \<Rightarrow> pdf \<Rightarrow> string \<Rightarrow> bool \<Rightarrow> nat list \<Rightarrow> (nat \<times> nat) list" where
  "spec_progress env doc_pdf doc_id deep_ocr pages =
     map (\<lambda>i. (i + 1, length doc_pdf)) (filter (\<lambda>i. \<not> page_raises env doc_pdf i doc_id deep_ocr) pages)"

text \<open>PDF pages for the tests: one with text and no images, and a PDF reader that gives a
  one-page document whose only page cannot be loaded; a callback that never raises.\<close>

definition text_page :: "exn + pdf_page" where
  "text_page = Inr \<lparr>get_text = Inr ''Dogs are animals.'', get_pixmap_png = Inr [], get_images = Inr []\<rparr>"

definition broken_page :: "exn + pdf_page" where
  "broken_page = Inl (Exn ''cannot load page'')"

definition pdf_env :: "pdf \<Rightarrow> env" where
  "pdf_env doc_pdf = quiet_env\<lparr>fitz_open := (\<lambda>b. Inr doc_pdf)\<rparr>"

definition silent_callback :: callback where
  "silent_callback = (\<lambda>current_page total_pages. None)"

section \<open>Facts about the string functions\<close>

lemma split_acc_ne: "split_acc sep cur s \<noteq> []"
  by (induction s arbitrary: cur) auto

lemma split_acc_cur: "split_acc sep cur s = (rev cur @ hd (split_acc sep [] s)) # tl (split_acc sep [] s)"
proof (induction s arbitrary: cur)
  case Nil show ?case by simp
next
  case (Cons c cs)
  show ?case
  proof (cases "c = sep")
    case True then show ?thesis by simp
  next
    case False
    have "split_acc sep (c # cur) cs = (rev (c # cur) @ hd (split_acc sep [] cs)) # tl (split_acc sep [] cs)"
      by (rule Cons.IH)
    moreover have "split_acc sep [c] cs = (rev [c] @ hd (split_acc sep [] cs)) # tl (split_acc sep [] cs)"
      by (rule Cons.IH)
    ultimately show ?thesis using False by simp
  qed
qed

lemma split_Cons:
  "split (c # cs) sep = (if c = sep then [] # split cs sep else (c # hd (split cs sep)) # tl (split cs sep))"
  using split_acc_cur [of sep "[c]" cs] by (simp add: split_def)

lemma split_Nil: "split [] sep = [[]]"
  by (simp add: split_def)

lemma split_ne: "split s sep \<noteq> []"
  by (simp add: split_def split_acc_ne)

lemma split_snoc:
  "c \<noteq> sep \<Longrightarrow> split (cs @ [c]) sep = butlast (split cs sep) @ [last (split cs sep) @ [c]]"
proof (induction cs)
  case Nil then show ?case by (simp add: split_Cons split_Nil)
next
  case (Cons a cs)
  then show ?case using split_ne [of cs sep] split_ne [of "cs @ [c]" sep]
    apply (simp add: split_Cons)
    apply (cases "split cs sep")
     apply simp
    apply (auto simp: butlast_append)
    done
qed

lemma lstrip_space: "isspace c \<Longrightarrow> lstrip (c # f) = lstrip f"
  by (simp add: lstrip_def)

lemma rstrip_snoc: "rstrip (f @ [c]) = (if isspace c then rstrip f else f @ [c])"
  by (simp add: rstrip_def)

lemma strip_Cons_space: "isspace c \<Longrightarrow> strip (c # f) = strip f"
  by (simp add: strip_def lstrip_space)

lemma lstrip_snoc_space: "isspace c \<Longrightarrow> rstrip (lstrip (f @ [c])) = rstrip (lstrip f)"
  by (induction f) (auto simp: lstrip_def rstrip_def)

lemma strip_snoc_space: "isspace c \<Longrightarrow> strip (f @ [c]) = strip f"
  by (simp add: strip_def lstrip_snoc_space)

lemma map_strip_split_lstrip:
  "\<not> isspace sep \<Longrightarrow> map strip (split (lstrip l) sep) = map strip (split l sep)"
proof (induction l)
  case Nil show ?case by (simp add: lstrip_def)
next
  case (Cons c cs)
  show ?case
  proof (cases "isspace c")
    case True
    then have "c \<noteq> sep" using Cons.prems by auto
    then show ?thesis using True Cons split_ne [of cs sep]
      by (cases "split cs sep") (simp_all add: lstrip_space split_Cons strip_Cons_space)
  next
    case False then show ?thesis by (simp add: lstrip_def)
  qed
qed

lemma map_strip_split_rstrip:
  "\<not> isspace sep \<Longrightarrow> map strip (split (rstrip l) sep) = map strip (split l sep)"
proof (induction l rule: rev_induct)
  case Nil show ?case by (simp add: rstrip_def)
next
  case (snoc c cs)
  show ?case
  proof (cases "isspace c")
    case True
    then have ne: "c \<noteq> sep" using snoc.prems by auto
    obtain ys y where ys: "split cs sep = ys @ [y]"
      using split_ne [of cs sep] by (cases "split cs sep" rule: rev_cases) auto
    have "map strip (split (cs @ [c]) sep) = map strip (split cs sep)"
      using True by (simp add: split_snoc [OF ne] ys strip_snoc_space)
    then show ?thesis using True snoc by (simp add: rstrip_snoc)
  next
    case False then show ?thesis by (simp add: rstrip_snoc)
  qed
qed

lemma map_strip_split_strip:
  "\<not> isspace sep \<Longrightarrow> map strip (split (strip l) sep) = map strip (split l sep)"
  by (simp add: strip_def map_strip_split_rstrip map_strip_split_lstrip)

lemma pipe_not_space: "\<not> isspace CHR ''|''"
  by (simp add: isspace_def)

lemma str_in_char: "str_in [c] l \<longleftrightarrow> c \<in> set l"
  by (induction l) auto

lemma split_no_sep: "sep \<notin> set l \<Longrightarrow> split l sep = [l]"
  by (induction l) (auto simp: split_Cons split_Nil)

lemma length3_cases: "length xs = 3 \<Longrightarrow> \<exists>a b c. xs = [a, b, c]"
  by (cases xs; cases "tl xs"; cases "tl (tl xs)") auto

lemma parse_lines_step:
  "parse_lines (l # rest) acc =
     parse_lines rest (acc @ (case spec_line_triple l of None \<Rightarrow> [] | Some t \<Rightarrow> [t]))"
proof -
  have fields: "map strip (split (strip l) CHR ''|'') = map strip (split l CHR ''|'')"
    by (rule map_strip_split_strip [OF pipe_not_space])
  show ?thesis
  proof (cases "CHR ''|'' \<in> set (strip l)")
    case False
    then have "split (strip l) CHR ''|'' = [strip l]" by (rule split_no_sep)
    with fields have "length (map strip (split l CHR ''|'')) = 1"
      by (metis length_Cons list.size(3) One_nat_def length_map)
    then have "spec_line_triple l = None" by (simp add: spec_line_triple_def)
    with False show ?thesis by (simp add: str_in_char)
  next
    case True
    then have ne: "strip l \<noteq> []" by auto
    show ?thesis
    proof (cases "length (split l CHR ''|'') = 3")
      case False
      then have "spec_line_triple l = None" by (simp add: spec_line_triple_def)
      moreover have "length (map strip (split (strip l) CHR ''|'')) \<noteq> 3"
        using False fields by (metis length_map)
      ultimately show ?thesis using True ne by (simp add: str_in_char Let_def)
    next
      case len: True
      then have "length (map strip (split l CHR ''|'')) = 3" by simp
      from length3_cases [OF this]
      obtain a b c where abc: "map strip (split l CHR ''|'') = [a, b, c]"
        by auto
      have "map strip (split (strip l) CHR ''|'') = [a, b, c]" using fields abc by simp
      then show ?thesis using True ne abc
        by (simp add: str_in_char Let_def unpack3_def spec_line_triple_def)
    qed
  qed
qed

lemma parse_lines_spec: "parse_lines ls acc = Inr (acc @ List.map_filter spec_line_triple ls)"
proof (induction ls arbitrary: acc)
  case Nil show ?case by (simp add: List.map_filter_simps)
next
  case (Cons l ls)
  show ?case
    by (simp only: parse_lines_step Cons.IH) (simp add: List.map_filter_simps split: option.split)
qed

section \<open>The line parser of the Triple Extractor\<close>

text \<open>
  Claim C7. The line parser of the Triple Extractor turns the raw model output
  \<open>"dog | is-a | animal"\<close> into exactly the one triple with \<open>s = "dog"\<close>, \<open>p = "is-a"\<close>,
  \<open>o = "animal"\<close>, and \<open>"bad line without pipes"\<close> into the empty list. For every raw
  output the parser returns (it never raises), and its result holds, in the order of the
  lines, one triple for each line whose split at the pipes gives exactly three fields that
  are all non-empty after trimming; every other line is dropped.
\<close>

theorem parse_triples_lines:
  "parse_triples ''dog | is-a | animal'' = Inr [\<lparr>t_s = ''dog'', t_p = ''is-a'', t_o = ''animal''\<rparr>]
   \<and> parse_triples ''bad line without pipes'' = Inr []
   \<and> parse_triples raw = Inr (List.map_filter spec_line_triple (splitlines (strip raw)))"
proof -
  have "parse_triples ''dog | is-a | animal'' = Inr [\<lparr>t_s = ''dog'', t_p = ''is-a'', t_o = ''animal''\<rparr>]"
    by code_simp
  moreover have "parse_triples ''bad line without pipes'' = Inr []"
    by code_simp
  moreover have "parse_triples raw = Inr (List.map_filter spec_line_triple (splitlines (strip raw)))"
    by (simp add: parse_triples_def parse_lines_spec)
  ultimately show ?thesis by blast
qed

section \<open>The retry loops\<close>

lemma throttled_0: "throttled calls start 0"
  by (simp add: throttled_def)

lemma throttled_Suc:
  "throttled calls start (Suc n) \<longleftrightarrow>
     (\<exists>e. calls start = Inl e \<and> is_rate_limit e) \<and> throttled calls (Suc start) n"
proof -
  have eq: "[0..<Suc n] = 0 # map Suc [0..<n]"
    by (simp add: upt_conv_Cons map_Suc_upt del: upt_Suc)
  show ?thesis
    unfolding throttled_def eq
    by (auto simp: list.pred_map comp_def split: sum.splits simp del: map_Suc_upt)
qed

lemma throttled_last:
  "throttled calls start (Suc n) \<Longrightarrow> \<exists>e. calls (start + n) = Inl e \<and> is_rate_limit e"
  by (auto simp: throttled_def split: sum.splits)

lemma throttled_less: "throttled calls start (Suc n) \<Longrightarrow> throttled calls start n"
  by (simp add: throttled_def)

lemma clock_tick: "clock (tick w) = Suc (clock w)" by (simp add: tick_def)
lemma clock_print: "clock (print l w) = clock w" by (simp add: print_def)
lemma clock_sleep: "clock (sleep n w) = clock w" by (simp add: sleep_def)
lemma slept_tick: "slept (tick w) = slept w" by (simp add: tick_def)
lemma slept_print: "slept (print l w) = slept w" by (simp add: print_def)
lemma slept_sleep: "slept (sleep n w) = slept w @ [n]" by (simp add: sleep_def)

lemmas clock_slept_simps = clock_tick clock_print clock_sleep slept_tick slept_print slept_sleep

lemma upt_shift: "[attempt..<Suc (attempt + n)] = attempt # [Suc attempt..<Suc (attempt + n)]"
  by (simp add: upt_conv_Cons del: upt_Suc)

lemma analyze_attempts_throttled:
  "throttled (\<lambda>c. llm_vision_invoke env c msg) (clock w) n \<Longrightarrow> attempt + n < max_retries \<Longrightarrow>
   \<exists>w'. analyze_attempts env msg attempt w = analyze_attempts env msg (attempt + n) w'
        \<and> clock w' = clock w + n
        \<and> slept w' = slept w @ map (\<lambda>k. 2 ^ k + 2) [attempt..<attempt + n]"
proof (induction n arbitrary: attempt w)
  case 0
  show ?case by auto
next
  case (Suc n)
  from Suc.prems(1) obtain e where e: "llm_vision_invoke env (clock w) msg = Inl e" "is_rate_limit e"
    and rest: "throttled (\<lambda>c. llm_vision_invoke env c msg) (Suc (clock w)) n"
    by (auto simp: throttled_Suc)
  let ?w1 = "sleep (2 ^ attempt + 2) (print (Rate_Limit_Retrying (2 ^ attempt + 2)) (tick w))"
  have step: "analyze_attempts env msg attempt w = analyze_attempts env msg (Suc attempt) ?w1"
    using e Suc.prems(2) by (subst analyze_attempts.simps) (auto simp: Let_def)
  have "throttled (\<lambda>c. llm_vision_invoke env c msg) (clock ?w1) n"
    using rest by (simp add: clock_slept_simps)
  moreover have "Suc attempt + n < max_retries" using Suc.prems(2) by simp
  ultimately obtain w' where w': "analyze_attempts env msg (Suc attempt) ?w1 = analyze_attempts env msg (Suc attempt + n) w'"
    "clock w' = clock ?w1 + n" "slept w' = slept ?w1 @ map (\<lambda>k. 2 ^ k + 2) [Suc attempt..<Suc attempt + n]"
    using Suc.IH by blast
  show ?case
    apply (rule exI [of _ w'])
    using step w' apply (simp add: clock_slept_simps upt_shift del: upt_Suc)
    done
qed

lemma analyze_attempts_returns:
  "attempt < max_retries \<Longrightarrow> llm_vision_invoke env (clock w) msg = Inr content \<Longrightarrow>
   analyze_attempts env msg attempt w = (Inr (Some (strip content)), tick w)"
  by (subst analyze_attempts.simps) simp

lemma analyze_attempts_raises:
  "attempt < max_retries \<Longrightarrow> llm_vision_invoke env (clock w) msg = Inl e \<Longrightarrow>
   \<not> is_rate_limit e \<or> attempt = max_retries - 1 \<Longrightarrow>
   analyze_attempts env msg attempt w = (Inl e, tick w)"
  by (subst analyze_attempts.simps) auto

lemma analyze_success:
  assumes "throttled (vision_calls env pt img) (clock w) n" and "n < max_retries"
    and "vision_calls env pt img (clock w + n) = Inr content"
  shows "fst (analyze_image_with_gpt env img pt w) = Some (strip content)
     \<and> slept (snd (analyze_image_with_gpt env img pt w)) = slept w @ backoff_waits n
     \<and> clock (snd (analyze_image_with_gpt env img pt w)) = clock w + n + 1"
proof -
  from analyze_attempts_throttled [of env "Vision pt img" w n 0] assms(1,2)
  obtain w' where w': "analyze_attempts env (Vision pt img) 0 w = analyze_attempts env (Vision pt img) n w'"
    "clock w' = clock w + n" "slept w' = slept w @ map (\<lambda>k. 2 ^ k + 2) [0..<n]"
    by (auto simp: vision_calls_def)
  have "analyze_attempts env (Vision pt img) n w' = (Inr (Some (strip content)), tick w')"
    using assms(2,3) w'(2) by (intro analyze_attempts_returns) (auto simp: vision_calls_def)
  with w' show ?thesis
    by (simp add: analyze_image_with_gpt_def backoff_waits_def clock_slept_simps)
qed

lemma analyze_failure:
  assumes "throttled (vision_calls env pt img) (clock w) n" and "n < max_retries"
    and "vision_calls env pt img (clock w + n) = Inl e"
    and "\<not> is_rate_limit e \<or> n = max_retries - 1"
  shows "fst (analyze_image_with_gpt env img pt w) = Some []
     \<and> slept (snd (analyze_image_with_gpt env img pt w)) = slept w @ backoff_waits n
     \<and> clock (snd (analyze_image_with_gpt env img pt w)) = clock w + n + 1"
proof -
  from analyze_attempts_throttled [of env "Vision pt img" w n 0] assms(1,2)
  obtain w' where w': "analyze_attempts env (Vision pt img) 0 w = analyze_attempts env (Vision pt img) n w'"
    "clock w' = clock w + n" "slept w' = slept w @ map (\<lambda>k. 2 ^ k + 2) [0..<n]"
    by (auto simp: vision_calls_def)
  have "analyze_attempts env (Vision pt img) n w' = (Inl e, tick w')"
    using assms(2,3,4) w'(2) by (intro analyze_attempts_raises) (auto simp: vision_calls_def)
  with w' show ?thesis
    by (simp add: analyze_image_with_gpt_def backoff_waits_def clock_slept_simps)
qed

lemma analyze_ceiling:
  assumes "throttled (vision_calls env pt img) (clock w) max_retries"
  shows "fst (analyze_image_with_gpt env img pt w) = Some []
     \<and> slept (snd (analyze_image_with_gpt env img pt w)) = slept w @ backoff_waits (max_retries - 1)
     \<and> clock (snd (analyze_image_with_gpt env img pt w)) = clock w + max_retries"
proof -
  have m: "max_retries = Suc (max_retries - 1)" by (simp add: max_retries_def)
  from assms m have t: "throttled (vision_calls env pt img) (clock w) (Suc (max_retries - 1))" by simp
  from throttled_last [OF t] obtain e where
    e: "vision_calls env pt img (clock w + (max_retries - 1)) = Inl e" by blast
  have "max_retries - 1 < max_retries" by (simp add: max_retries_def)
  from analyze_failure [OF throttled_less [OF t] this e] show ?thesis
    by (simp add: max_retries_def)
qed

lemma parse_triples_returns: "\<exists>ts. parse_triples content = Inr ts"
  by (simp add: parse_triples_def parse_lines_spec)

lemma extract_attempts_throttled:
  "throttled (\<lambda>c. llm_invoke env c (Triple_Extraction text)) (clock w) n \<Longrightarrow>
   attempt + n < max_retries \<Longrightarrow>
   \<exists>w'. extract_attempts env text attempt w = extract_attempts env text (attempt + n) w'
        \<and> clock w' = clock w + n
        \<and> slept w' = slept w @ map (\<lambda>k. 2 ^ k + 2) [attempt..<attempt + n]"
proof (induction n arbitrary: attempt w)
  case 0
  show ?case by auto
next
  case (Suc n)
  from Suc.prems(1) obtain e where
    e: "llm_invoke env (clock w) (Triple_Extraction text) = Inl e" "is_rate_limit e"
    and rest: "throttled (\<lambda>c. llm_invoke env c (Triple_Extraction text)) (Suc (clock w)) n"
    by (auto simp: throttled_Suc)
  let ?w1 = "sleep (2 ^ attempt + 2) (print (KG_Rate_Limit_Retrying (2 ^ attempt + 2)) (tick w))"
  have step: "extract_attempts env text attempt w = extract_attempts env text (Suc attempt) ?w1"
    using e Suc.prems(2) by (subst extract_attempts.simps) (auto simp: Let_def)
  have "throttled (\<lambda>c. llm_invoke env c (Triple_Extraction text)) (clock ?w1) n"
    using rest by (simp add: clock_slept_simps)
  moreover have "Suc attempt + n < max_retries" using Suc.prems(2) by simp
  ultimately obtain w' where
    w': "extract_attempts env text (Suc attempt) ?w1 = extract_attempts env text (Suc attempt + n) w'"
    "clock w' = clock ?w1 + n"
    "slept w' = slept ?w1 @ map (\<lambda>k. 2 ^ k + 2) [Suc attempt..<Suc attempt + n]"
    using Suc.IH by blast
  show ?case
    apply (rule exI [of _ w'])
    using step w' apply (simp add: clock_slept_simps upt_shift del: upt_Suc)
    done
qed

lemma extract_attempts_returns:
  "attempt < max_retries \<Longrightarrow> llm_invoke env (clock w) (Triple_Extraction text) = Inr content \<Longrightarrow>
   parse_triples content = Inr ts \<Longrightarrow>
   extract_attempts env text attempt w = (ts, tick w)"
  by (subst extract_attempts.simps) simp

lemma extract_attempts_gives_up:
  "attempt < max_retries \<Longrightarrow> llm_invoke env (clock w) (Triple_Extraction text) = Inl e \<Longrightarrow>
   \<not> is_rate_limit e \<or> attempt = max_retries - 1 \<Longrightarrow>
   \<exists>w'. extract_attempts env text attempt w = ([], w') \<and> clock w' = Suc (clock w)
        \<and> slept w' = slept w"
  by (subst extract_attempts.simps) (auto simp: Let_def clock_slept_simps)

lemma extract_success:
  assumes "strip text \<noteq> []"
    and "throttled (triple_calls env text) (clock w) n" and "n < max_retries"
    and "triple_calls env text (clock w + n) = Inr content"
  shows "Inr (fst (extract_triples_from_text env text w)) = parse_triples content
     \<and> slept (snd (extract_triples_from_text env text w)) = slept w @ backoff_waits n
     \<and> clock (snd (extract_triples_from_text env text w)) = clock w + n + 1"
proof -
  from extract_attempts_throttled [of env "text" w n 0] assms(2,3)
  obtain w' where w': "extract_attempts env text 0 w = extract_attempts env text n w'"
    "clock w' = clock w + n" "slept w' = slept w @ map (\<lambda>k. 2 ^ k + 2) [0..<n]"
    by (auto simp: triple_calls_def)
  obtain ts where ts: "parse_triples content = Inr ts"
    using parse_triples_returns by blast
  have "extract_attempts env text n w' = (ts, tick w')"
    using assms(3,4) w'(2) ts by (intro extract_attempts_returns) (auto simp: triple_calls_def)
  with w' ts assms(1) show ?thesis
    by (simp add: extract_triples_from_text_def backoff_waits_def clock_slept_simps)
qed

lemma extract_failure:
  assumes "strip text \<noteq> []"
    and "throttled (triple_calls env text) (clock w) n" and "n < max_retries"
    and "triple_calls env text (clock w + n) = Inl e"
    and "\<not> is_rate_limit e \<or> n = max_retries - 1"
  shows "fst (extract_triples_from_text env text w) = []
     \<and> slept (snd (extract_triples_from_text env text w)) = slept w @ backoff_waits n
     \<and> clock (snd (extract_triples_from_text env text w)) = clock w + n + 1"
proof -
  from extract_attempts_throttled [of env "text" w n 0] assms(2,3)
  obtain w' where w': "extract_attempts env text 0 w = extract_attempts env text n w'"
    "clock w' = clock w + n" "slept w' = slept w @ map (\<lambda>k. 2 ^ k + 2) [0..<n]"
    by (auto simp: triple_calls_def)
  have "\<exists>w''. extract_attempts env text n w' = ([], w'') \<and> clock w'' = Suc (clock w')
          \<and> slept w'' = slept w'"
    using assms(3,4,5) w'(2) by (intro extract_attempts_gives_up) (auto simp: triple_calls_def)
  with w' assms(1) show ?thesis
    by (auto simp: extract_triples_from_text_def backoff_waits_def)
qed

lemma extract_ceiling:
  assumes "strip text \<noteq> []" and "throttled (triple_calls env text) (clock w) max_retries"
  shows "fst (extract_triples_from_text env text w) = []
     \<and> slept (snd (extract_triples_from_text env text w)) = slept w @ backoff_waits (max_retries - 1)
     \<and> clock (snd (extract_triples_from_text env text w)) = clock w + max_retries"
proof -
  have m: "max_retries = Suc (max_retries - 1)" by (simp add: max_retries_def)
  from assms(2) m have t: "throttled (triple_calls env text) (clock w) (Suc (max_retries - 1))" by simp
  from throttled_last [OF t] obtain e where
    e: "triple_calls env text (clock w + (max_retries - 1)) = Inl e" by blast
  have "max_retries - 1 < max_retries" by (simp add: max_retries_def)
  from extract_failure [OF assms(1) throttled_less [OF t] this e] show ?thesis
    by (simp add: max_retries_def)
qed

section \<open>Throttling, retries and backoff\<close>

text \<open>
  Claim C3. For the Vision Describer (\<open>_analyze_image_with_gpt\<close>) and the Triple Extractor
  (\<open>extract_triples_from_text\<close>, on a text that is not blank): when the capability raises
  a rate-limit-marked error on each of its first \<open>n\<close> attempts, \<open>n\<close> below the ceiling of
  12, and then answers, the successful result is returned (the trimmed description, or
  the triples parsed from the answer) after exactly \<open>n\<close> waits and \<open>n + 1\<close> calls; for
  \<open>n = 3\<close> the waits are 3, 4 and 6 seconds. The wait after attempt number \<open>k\<close> (from 0)
  is \<open>2 ^ k + 2\<close>. When every attempt is throttled there are exactly 12 calls and 11
  waits and the result is empty. An error without the rate-limit mark is never retried:
  the call that raised it is the last one, and the caller receives an empty result (the
  empty string, or the empty list).
\<close>

theorem throttling_retry:
  "(throttled (vision_calls env pt img) (clock w) n \<and> n < max_retries
      \<and> vision_calls env pt img (clock w + n) = Inr content
    \<longrightarrow> fst (analyze_image_with_gpt env img pt w) = Some (strip content)
        \<and> slept (snd (analyze_image_with_gpt env img pt w)) = slept w @ backoff_waits n
        \<and> clock (snd (analyze_image_with_gpt env img pt w)) = clock w + n + 1)
   \<and> (throttled (vision_calls env pt img) (clock w) n \<and> n < max_retries
      \<and> vision_calls env pt img (clock w + n) = Inl e \<and> \<not> is_rate_limit e
    \<longrightarrow> fst (analyze_image_with_gpt env img pt w) = Some []
        \<and> slept (snd (analyze_image_with_gpt env img pt w)) = slept w @ backoff_waits n
        \<and> clock (snd (analyze_image_with_gpt env img pt w)) = clock w + n + 1)
   \<and> (throttled (vision_calls env pt img) (clock w) max_retries
    \<longrightarrow> fst (analyze_image_with_gpt env img pt w) = Some []
        \<and> slept (snd (analyze_image_with_gpt env img pt w)) = slept w @ backoff_waits 11
        \<and> clock (snd (analyze_image_with_gpt env img pt w)) = clock w + 12)
   \<and> (strip text \<noteq> [] \<and> throttled (triple_calls env text) (clock w) n \<and> n < max_retries
      \<and> triple_calls env text (clock w + n) = Inr content
    \<longrightarrow> Inr (fst (extract_triples_from_text env text w)) = parse_triples content
        \<and> slept (snd (extract_triples_from_text env text w)) = slept w @ backoff_waits n
        \<and> clock (snd (extract_triples_from_text env text w)) = clock w + n + 1)
   \<and> (strip text \<noteq> [] \<and> throttled (triple_calls env text) (clock w) n \<and> n < max_retries
      \<and> triple_calls env text (clock w + n) = Inl e \<and> \<not> is_rate_limit e
    \<longrightarrow> fst (extract_triples_from_text env text w) = []
        \<and> slept (snd (extract_triples_from_text env text w)) = slept w @ backoff_waits n
        \<and> clock (snd (extract_triples_from_text env text w)) = clock w + n + 1)
   \<and> (strip text \<noteq> [] \<and> throttled (triple_calls env text) (clock w) max_retries
    \<longrightarrow> fst (extract_triples_from_text env text w) = []
        \<and> slept (snd (extract_triples_from_text env text w)) = slept w @ backoff_waits 11
        \<and> clock (snd (extract_triples_from_text env text w)) = clock w + 12)
   \<and> max_retries = 12
   \<and> backoff_waits 3 = [3, 4, 6]
   \<and> backoff_waits n = map (\<lambda>attempt. 2 ^ attempt + 2) [0..<n]"
proof (intro conjI impI)
  assume h: "throttled (vision_calls env pt img) (clock w) n \<and> n < max_retries
      \<and> vision_calls env pt img (clock w + n) = Inr content"
  from h analyze_success [of env pt img w n content]
  show "fst (analyze_image_with_gpt env img pt w) = Some (strip content)"
    and "slept (snd (analyze_image_with_gpt env img pt w)) = slept w @ backoff_waits n"
    and "clock (snd (analyze_image_with_gpt env img pt w)) = clock w + n + 1"
    by simp_all
next
  assume h: "throttled (vision_calls env pt img) (clock w) n \<and> n < max_retries
      \<and> vision_calls env pt img (clock w + n) = Inl e \<and> \<not> is_rate_limit e"
  from h analyze_failure [of env pt img w n e]
  show "fst (analyze_image_with_gpt env img pt w) = Some []"
    and "slept (snd (analyze_image_with_gpt env img pt w)) = slept w @ backoff_waits n"
    and "clock (snd (analyze_image_with_gpt env img pt w)) = clock w + n + 1"
    by simp_all
next
  assume h: "throttled (vision_calls env pt img) (clock w) max_retries"
  from analyze_ceiling [OF h]
  show "fst (analyze_image_with_gpt env img pt w) = Some []"
    and "slept (snd (analyze_image_with_gpt env img pt w)) = slept w @ backoff_waits 11"
    and "clock (snd (analyze_image_with_gpt env img pt w)) = clock w + 12"
    by (simp_all add: max_retries_def)
next
  assume h: "strip text \<noteq> [] \<and> throttled (triple_calls env text) (clock w) n \<and> n < max_retries
      \<and> triple_calls env text (clock w + n) = Inr content"
  from h extract_success [of "text" env w n content]
  show "Inr (fst (extract_triples_from_text env text w)) = parse_triples content"
    and "slept (snd (extract_triples_from_text env text w)) = slept w @ backoff_waits n"
    and "clock (snd (extract_triples_from_text env text w)) = clock w + n + 1"
    by simp_all
next
  assume h: "strip text \<noteq> [] \<and> throttled (triple_calls env text) (clock w) n \<and> n < max_retries
      \<and> triple_calls env text (clock w + n) = Inl e \<and> \<not> is_rate_limit e"
  from h extract_failure [of "text" env w n e]
  show "fst (extract_triples_from_text env text w) = []"
    and "slept (snd (extract_triples_from_text env text w)) = slept w @ backoff_waits n"
    and "clock (snd (extract_triples_from_text env text w)) = clock w + n + 1"
    by simp_all
next
  assume h: "strip text \<noteq> [] \<and> throttled (triple_calls env text) (clock w) max_retries"
  from h extract_ceiling [of "text" env w]
  show "fst (extract_triples_from_text env text w) = []"
    and "slept (snd (extract_triples_from_text env text w)) = slept w @ backoff_waits 11"
    and "clock (snd (extract_triples_from_text env text w)) = clock w + 12"
    by (simp_all add: max_retries_def)
next
  show "max_retries = 12" by (simp add: max_retries_def)
next
  show "backoff_waits 3 = [3, 4, 6]" by (simp add: backoff_waits_def upt_rec)
next
  show "backoff_waits n = map (\<lambda>attempt. 2 ^ attempt + 2) [0..<n]" by (simp add: backoff_waits_def)
qed

theorem throttling_retry_witness:
  "fst (analyze_image_with_gpt (quiet_env\<lparr>llm_vision_invoke := throttle_then_answer 3 '' a cat ''\<rparr>)
          [] ''Describe'' fresh_world) = Some ''a cat''
   \<and> slept (snd (analyze_image_with_gpt (quiet_env\<lparr>llm_vision_invoke := throttle_then_answer 3 '' a cat ''\<rparr>)
          [] ''Describe'' fresh_world)) = [3, 4, 6]
   \<and> clock (snd (analyze_image_with_gpt (quiet_env\<lparr>llm_vision_invoke := throttle_then_answer 3 '' a cat ''\<rparr>)
          [] ''Describe'' fresh_world)) = 4
   \<and> fst (analyze_image_with_gpt (quiet_env\<lparr>llm_vision_invoke := connection_error\<rparr>)
          [] ''Describe'' fresh_world) = Some []
   \<and> clock (snd (analyze_image_with_gpt (quiet_env\<lparr>llm_vision_invoke := connection_error\<rparr>)
          [] ''Describe'' fresh_world)) = 1
   \<and> fst (analyze_image_with_gpt (quiet_env\<lparr>llm_vision_invoke := always_throttled\<rparr>)
          [] ''Describe'' fresh_world) = Some []
   \<and> clock (snd (analyze_image_with_gpt (quiet_env\<lparr>llm_vision_invoke := always_throttled\<rparr>)
          [] ''Describe'' fresh_world)) = 12
   \<and> length (slept (snd (analyze_image_with_gpt (quiet_env\<lparr>llm_vision_invoke := always_throttled\<rparr>)
          [] ''Describe'' fresh_world))) = 11
   \<and> fst (extract_triples_from_text (quiet_env\<lparr>llm_invoke := throttle_then_answer 3 ''dog | is-a | animal''\<rparr>)
          ''Dogs are animals.'' fresh_world) = [\<lparr>t_s = ''dog'', t_p = ''is-a'', t_o = ''animal''\<rparr>]
   \<and> slept (snd (extract_triples_from_text (quiet_env\<lparr>llm_invoke := throttle_then_answer 3 ''dog | is-a | animal''\<rparr>)
          ''Dogs are animals.'' fresh_world)) = [3, 4, 6]
   \<and> fst (extract_triples_from_text (quiet_env\<lparr>llm_invoke := connection_error\<rparr>)
          ''Dogs are animals.'' fresh_world) = []
   \<and> clock (snd (extract_triples_from_text (quiet_env\<lparr>llm_invoke := connection_error\<rparr>)
          ''Dogs are animals.'' fresh_world)) = 1
   \<and> fst (extract_triples_from_text (quiet_env\<lparr>llm_invoke := always_throttled\<rparr>)
          ''Dogs are animals.'' fresh_world) = []
   \<and> clock (snd (extract_triples_from_text (quiet_env\<lparr>llm_invoke := always_throttled\<rparr>)
          ''Dogs are animals.'' fresh_world)) = 12"
proof -
  let ?va = "quiet_env\<lparr>llm_vision_invoke := throttle_then_answer 3 '' a cat ''\<rparr>"
  let ?vb = "quiet_env\<lparr>llm_vision_invoke := connection_error\<rparr>"
  let ?vc = "quiet_env\<lparr>llm_vision_invoke := always_throttled\<rparr>"
  let ?ta = "quiet_env\<lparr>llm_invoke := throttle_then_answer 3 ''dog | is-a | animal''\<rparr>"
  let ?tb = "quiet_env\<lparr>llm_invoke := connection_error\<rparr>"
  let ?tc = "quiet_env\<lparr>llm_invoke := always_throttled\<rparr>"
  let ?e = "Exn ''Connection reset by peer''"
  have c0: "clock fresh_world = 0" and s0: "slept fresh_world = []"
    by (simp_all add: fresh_world_def)
  have rl: "is_rate_limit rate_limit_error" by code_simp
  have nrl: "\<not> is_rate_limit ?e" by code_simp
  have nonblank: "strip ''Dogs are animals.'' \<noteq> []" by code_simp
  have cat: "strip '' a cat '' = ''a cat''" by code_simp
  have dog: "parse_triples ''dog | is-a | animal'' = Inr [\<lparr>t_s = ''dog'', t_p = ''is-a'', t_o = ''animal''\<rparr>]"
    by code_simp
  have b3: "backoff_waits 3 = [3, 4, 6]" by (simp add: backoff_waits_def upt_rec)
  have b11: "length (backoff_waits 11) = 11" by (simp add: backoff_waits_def)
  have va: "throttled (vision_calls ?va ''Describe'' []) 0 3"
    "vision_calls ?va ''Describe'' [] 3 = Inr '' a cat ''"
    using rl by (simp_all add: throttled_def vision_calls_def quiet_env_def throttle_then_answer_def upt_rec)
  have vb: "throttled (vision_calls ?vb ''Describe'' []) 0 0"
    "vision_calls ?vb ''Describe'' [] 0 = Inl ?e"
    by (simp_all add: throttled_def vision_calls_def quiet_env_def connection_error_def)
  have vc: "throttled (vision_calls ?vc ''Describe'' []) 0 max_retries"
    using rl by (simp add: throttled_def vision_calls_def quiet_env_def always_throttled_def list_all_iff)
  have ta: "throttled (triple_calls ?ta ''Dogs are animals.'') 0 3"
    "triple_calls ?ta ''Dogs are animals.'' 3 = Inr ''dog | is-a | animal''"
    using rl by (simp_all add: throttled_def triple_calls_def quiet_env_def throttle_then_answer_def upt_rec)
  have tb: "throttled (triple_calls ?tb ''Dogs are animals.'') 0 0"
    "triple_calls ?tb ''Dogs are animals.'' 0 = Inl ?e"
    by (simp_all add: throttled_def triple_calls_def quiet_env_def connection_error_def)
  have tc: "throttled (triple_calls ?tc ''Dogs are animals.'') 0 max_retries"
    using rl by (simp add: throttled_def triple_calls_def quiet_env_def always_throttled_def list_all_iff)
  have m: "(3::nat) < max_retries" "(0::nat) < max_retries" by (simp_all add: max_retries_def)
  note A = throttling_retry [of ?va "''Describe''" "[]" fresh_world 3 "'' a cat ''" ?e "''Dogs are animals.''"]
  note B = throttling_retry [of ?vb "''Describe''" "[]" fresh_world 0 "[]" ?e "''Dogs are animals.''"]
  note C = throttling_retry [of ?vc "''Describe''" "[]" fresh_world 0 "[]" ?e "''Dogs are animals.''"]
  note D = throttling_retry [of ?ta "''Describe''" "[]" fresh_world 3 "''dog | is-a | animal''" ?e "''Dogs are animals.''"]
  note E = throttling_retry [of ?tb "''Describe''" "[]" fresh_world 0 "[]" ?e "''Dogs are animals.''"]
  note F = throttling_retry [of ?tc "''Describe''" "[]" fresh_world 0 "[]" ?e "''Dogs are animals.''"]
  have "fst (analyze_image_with_gpt ?va [] ''Describe'' fresh_world) = Some ''a cat''"
    "slept (snd (analyze_image_with_gpt ?va [] ''Describe'' fresh_world)) = [3, 4, 6]"
    "clock (snd (analyze_image_with_gpt ?va [] ''Describe'' fresh_world)) = 4"
    using A va m c0 s0 cat b3 by simp_all
  moreover have "fst (analyze_image_with_gpt ?vb [] ''Describe'' fresh_world) = Some []"
    "clock (snd (analyze_image_with_gpt ?vb [] ''Describe'' fresh_world)) = 1"
    using B vb m c0 s0 nrl by simp_all
  moreover have "fst (analyze_image_with_gpt ?vc [] ''Describe'' fresh_world) = Some []"
    "clock (snd (analyze_image_with_gpt ?vc [] ''Describe'' fresh_world)) = 12"
    "length (slept (snd (analyze_image_with_gpt ?vc [] ''Describe'' fresh_world))) = 11"
    using C vc c0 s0 b11 by simp_all
  moreover have "fst (extract_triples_from_text ?ta ''Dogs are animals.'' fresh_world)
        = [\<lparr>t_s = ''dog'', t_p = ''is-a'', t_o = ''animal''\<rparr>]"
    "slept (snd (extract_triples_from_text ?ta ''Dogs are animals.'' fresh_world)) = [3, 4, 6]"
    using D ta m c0 s0 nonblank dog b3 by simp_all
  moreover have "fst (extract_triples_from_text ?tb ''Dogs are animals.'' fresh_world) = []"
    "clock (snd (extract_triples_from_text ?tb ''Dogs are animals.'' fresh_world)) = 1"
    using E tb m c0 s0 nonblank nrl by simp_all
  moreover have "fst (extract_triples_from_text ?tc ''Dogs are animals.'' fresh_world) = []"
    "clock (snd (extract_triples_from_text ?tc ''Dogs are animals.'' fresh_world)) = 12"
    using F tc c0 s0 nonblank by simp_all
  ultimately show ?thesis by blast
qed

section \<open>The graph store is down\<close>



section \<open>The relevance filter inside a graph query\<close>

lemma get_driver_held: "driver w \<Longrightarrow> get_driver env w = (True, w)"
  by (simp add: get_driver_def)

lemma query_after_candidates:
  assumes "get_driver env w = (True, w1)"
    and "extract_entities_from_query env query w1 = (entities, w2)"
    and "entities \<noteq> []"
    and "neo4j_match env (clock w2) (doc_scope doc_id) entities = Inr matches"
    and "take 50 matches \<noteq> []"
  shows "query_kg_for_query env query doc_id w =
     (case filter_relevant_triples env query (take 50 matches)
             (print (Found_Candidates (length (take 50 matches)))
                (tick (print (Extracted_Entities entities) w2))) of
        (relevant_rows, w6) \<Rightarrow>
          if relevant_rows = []
          then (Inr (take 10 (take 50 matches)), print Filter_Removed_All w6)
          else (Inr relevant_rows,
                print (Found_Relevant (length relevant_rows) (length (take 50 matches))) w6))"
  using assms by (simp add: query_kg_for_query_def Let_def print_def tick_def)

text \<open>
  Claim C9. In a Knowledge Graph query that reached the filter (a driver is there,
  entities were found, the graph gave a non-empty list of candidates, the first 50 of
  its matches): if the relevance filter returns the empty selection, the query returns
  the first 10 unfiltered candidates, which is not an empty result.
\<close>

theorem filter_empty_falls_back:
  "get_driver env w = (True, w1)
   \<and> extract_entities_from_query env query w1 = (entities, w2) \<and> entities \<noteq> []
   \<and> neo4j_match env (clock w2) (doc_scope doc_id) entities = Inr matches
   \<and> take 50 matches \<noteq> []
   \<and> fst (filter_relevant_triples env query (take 50 matches)
             (print (Found_Candidates (length (take 50 matches)))
                (tick (print (Extracted_Entities entities) w2)))) = []
   \<longrightarrow> fst (query_kg_for_query env query doc_id w) = Inr (take 10 (take 50 matches))
       \<and> take 10 (take 50 matches) \<noteq> []"
proof (intro impI, elim conjE)
  assume h: "get_driver env w = (True, w1)"
    "extract_entities_from_query env query w1 = (entities, w2)" "entities \<noteq> []"
    "neo4j_match env (clock w2) (doc_scope doc_id) entities = Inr matches"
    "take 50 matches \<noteq> []"
  assume empty: "fst (filter_relevant_triples env query (take 50 matches)
             (print (Found_Candidates (length (take 50 matches)))
                (tick (print (Extracted_Entities entities) w2)))) = []"
  obtain w6 where f: "filter_relevant_triples env query (take 50 matches)
             (print (Found_Candidates (length (take 50 matches)))
                (tick (print (Extracted_Entities entities) w2))) = ([], w6)"
    using empty by (metis prod.collapse)
  have "fst (query_kg_for_query env query doc_id w) = Inr (take 10 (take 50 matches))"
    unfolding query_after_candidates [OF h] f by simp
  moreover have "take 10 (take 50 matches) \<noteq> []"
    using h(5) by (cases matches) auto
  ultimately show "fst (query_kg_for_query env query doc_id w) = Inr (take 10 (take 50 matches))
       \<and> take 10 (take 50 matches) \<noteq> []" by simp
qed

text \<open>
  Claim C10. When the call of the relevance-filter capability itself raises, the filter
  returns the whole candidate list unchanged. Inside a query the result is then the list
  of all candidates, at most 50 of them, and the fallback to the first 10 is not taken
  (its notice is not printed).
\<close>

theorem filter_error_keeps_all:
  "(triples \<noteq> []
      \<and> llm_deterministic_invoke env (clock w)
           (Relevance_Filter query (triples_text_from 0 triples)) = Inl e
    \<longrightarrow> fst (filter_relevant_triples env query triples w) = triples)
   \<and> (get_driver env w = (True, w1)
      \<and> extract_entities_from_query env query w1 = (entities, w2) \<and> entities \<noteq> []
      \<and> neo4j_match env (clock w2) (doc_scope doc_id) entities = Inr matches
      \<and> take 50 matches \<noteq> []
      \<and> llm_deterministic_invoke env (Suc (clock w2))
           (Relevance_Filter query (triples_text_from 0 (take 50 matches))) = Inl e
    \<longrightarrow> fst (query_kg_for_query env query doc_id w) = Inr (take 50 matches)
        \<and> length (take 50 matches) \<le> 50
        \<and> printed_lines (snd (query_kg_for_query env query doc_id w)) =
            printed_lines w2 @ [Extracted_Entities entities,
                                Found_Candidates (length (take 50 matches)),
                                Error_Filtering_Triples e,
                                Found_Relevant (length (take 50 matches)) (length (take 50 matches))])"
proof (intro conjI impI)
  assume "triples \<noteq> []
      \<and> llm_deterministic_invoke env (clock w)
           (Relevance_Filter query (triples_text_from 0 triples)) = Inl e"
  then show "fst (filter_relevant_triples env query triples w) = triples"
    by (simp add: filter_relevant_triples_def)
next
  assume a: "get_driver env w = (True, w1)
      \<and> extract_entities_from_query env query w1 = (entities, w2) \<and> entities \<noteq> []
      \<and> neo4j_match env (clock w2) (doc_scope doc_id) entities = Inr matches
      \<and> take 50 matches \<noteq> []
      \<and> llm_deterministic_invoke env (Suc (clock w2))
           (Relevance_Filter query (triples_text_from 0 (take 50 matches))) = Inl e"
  then have h: "get_driver env w = (True, w1)"
    "extract_entities_from_query env query w1 = (entities, w2)" "entities \<noteq> []"
    "neo4j_match env (clock w2) (doc_scope doc_id) entities = Inr matches"
    "take 50 matches \<noteq> []"
    by simp_all
  let ?w5 = "print (Found_Candidates (length (take 50 matches)))
                (tick (print (Extracted_Entities entities) w2))"
  have c: "clock ?w5 = Suc (clock w2)" by (simp add: print_def tick_def)
  have f: "filter_relevant_triples env query (take 50 matches) ?w5 =
             (take 50 matches, print (Error_Filtering_Triples e) (tick ?w5))"
    using a h(5) unfolding filter_relevant_triples_def c by (simp add: Let_def)
  show "fst (query_kg_for_query env query doc_id w) = Inr (take 50 matches)"
    unfolding query_after_candidates [OF h] f using h(5) by simp
  show "length (take 50 matches) \<le> 50" by simp
  show "printed_lines (snd (query_kg_for_query env query doc_id w)) =
            printed_lines w2 @ [Extracted_Entities entities,
                                Found_Candidates (length (take 50 matches)),
                                Error_Filtering_Triples e,
                                Found_Relevant (length (take 50 matches)) (length (take 50 matches))]"
    unfolding query_after_candidates [OF h] f using h(5) by (simp add: print_def tick_def)
qed

theorem filter_empty_falls_back_witness:
  "fst (query_kg_for_query (graph_env (Inr ''NONE'')) ''What is a dog?'' (Some ''doc-1'') fresh_world)
     = Inr (replicate 10 dog_triple)
   \<and> fst (filter_relevant_triples (graph_env (Inr ''NONE'')) ''What is a dog?''
            (replicate 12 dog_triple) (fresh_world\<lparr>clock := 3\<rparr>)) = []"
proof -
  let ?env = "graph_env (Inr ''NONE'')"
  let ?q = "''What is a dog?''"
  let ?w1 = "snd (get_driver ?env fresh_world)"
  let ?w2 = "snd (extract_entities_from_query ?env ?q ?w1)"
  let ?ms = "replicate 12 dog_triple"
  have h1: "get_driver ?env fresh_world = (True, ?w1)" by code_simp
  have h2: "extract_entities_from_query ?env ?q ?w1 = ([''dog'', ''animal''], ?w2)" by code_simp
  have h3: "neo4j_match ?env (clock ?w2) (doc_scope (Some ''doc-1'')) [''dog'', ''animal''] = Inr ?ms"
    by (simp add: graph_env_def quiet_env_def)
  have h4: "take 50 ?ms \<noteq> []" by code_simp
  have h5: "fst (filter_relevant_triples ?env ?q (take 50 ?ms)
             (print (Found_Candidates (length (take 50 ?ms)))
                (tick (print (Extracted_Entities [''dog'', ''animal'']) ?w2)))) = []"
    by code_simp
  have r: "take 10 (take 50 ?ms) = replicate 10 dog_triple" by code_simp
  have "fst (query_kg_for_query ?env ?q (Some ''doc-1'') fresh_world) = Inr (replicate 10 dog_triple)"
    using filter_empty_falls_back [where env = ?env and w = fresh_world and ?w1.0 = ?w1
        and query = ?q and entities = "[''dog'', ''animal'']" and ?w2.0 = ?w2
        and doc_id = "Some ''doc-1''" and matches = ?ms] h1 h2 h3 h4 h5 r
    by simp
  moreover have "fst (filter_relevant_triples ?env ?q ?ms (fresh_world\<lparr>clock := 3\<rparr>)) = []"
    by code_simp
  ultimately show ?thesis by blast
qed

theorem filter_error_keeps_all_witness:
  "fst (filter_relevant_triples (graph_env (Inl (Exn ''Connection reset by peer''))) ''What is a dog?''
          (replicate 12 dog_triple) fresh_world) = replicate 12 dog_triple
   \<and> fst (query_kg_for_query (graph_env (Inl (Exn ''Connection reset by peer''))) ''What is a dog?''
          (Some ''doc-1'') fresh_world) = Inr (replicate 12 dog_triple)"
proof -
  let ?e = "Exn ''Connection reset by peer''"
  let ?env = "graph_env (Inl ?e)"
  let ?q = "''What is a dog?''"
  let ?w1 = "snd (get_driver ?env fresh_world)"
  let ?w2 = "snd (extract_entities_from_query ?env ?q ?w1)"
  let ?ms = "replicate 12 dog_triple"
  have h0: "?ms \<noteq> []" by code_simp
  have h0': "llm_deterministic_invoke ?env (clock fresh_world)
               (Relevance_Filter ?q (triples_text_from 0 ?ms)) = Inl ?e"
    by (simp add: graph_env_def quiet_env_def)
  have h1: "get_driver ?env fresh_world = (True, ?w1)" by code_simp
  have h2: "extract_entities_from_query ?env ?q ?w1 = ([''dog'', ''animal''], ?w2)" by code_simp
  have h3: "neo4j_match ?env (clock ?w2) (doc_scope (Some ''doc-1'')) [''dog'', ''animal''] = Inr ?ms"
    by (simp add: graph_env_def quiet_env_def)
  have h4: "take 50 ?ms \<noteq> []" by code_simp
  have h5: "llm_deterministic_invoke ?env (Suc (clock ?w2))
               (Relevance_Filter ?q (triples_text_from 0 (take 50 ?ms))) = Inl ?e"
    by (simp add: graph_env_def quiet_env_def)
  have r: "take 50 ?ms = ?ms" by code_simp
  note T = filter_error_keeps_all [where triples = ?ms and env = ?env and w = fresh_world
        and query = ?q and e = ?e and ?w1.0 = ?w1 and entities = "[''dog'', ''animal'']"
        and ?w2.0 = ?w2 and doc_id = "Some ''doc-1''" and matches = ?ms]
  have "fst (filter_relevant_triples ?env ?q ?ms fresh_world) = ?ms"
    using T h0 h0' by blast
  moreover have "fst (query_kg_for_query ?env ?q (Some ''doc-1'') fresh_world) = Inr ?ms"
    using T h1 h2 h3 h4 h5 r by simp
  ultimately show ?thesis by blast
qed

section \<open>The Retrieval-Answer Synthesizer\<close>













section \<open>The Knowledge Graph upsert\<close>

lemma upt_Suc_Suc: "[0..<Suc (Suc n)] = 0 # Suc 0 # map (Suc \<circ> Suc) [0..<n]"
proof -
  have "[0..<Suc (Suc n)] = 0 # map Suc [0..<Suc n]"
    by (simp only: map_Suc_upt upt_conv_Cons [of 0 "Suc (Suc n)"] zero_less_Suc if_True)
  also have "[0..<Suc n] = 0 # map Suc [0..<n]"
    by (simp only: map_Suc_upt upt_conv_Cons [of 0 "Suc n"] zero_less_Suc if_True)
  finally show ?thesis by simp
qed

lemma slice_step2_even_indices: "slice_step2 xs = spec_sampled xs"
proof (induction xs rule: slice_step2.induct)
  case 1
  show ?case by (simp add: spec_sampled_def)
next
  case (2 x)
  show ?case by (simp add: spec_sampled_def)
next
  case (3 x y xs)
  have "filter even [0..<length (x # y # xs)] = 0 # map (Suc \<circ> Suc) (filter even [0..<length xs])"
    by (simp add: upt_Suc_Suc filter_map comp_def del: upt_Suc)
  then have "spec_sampled (x # y # xs) = x # spec_sampled xs"
    by (simp add: spec_sampled_def comp_def)
  with 3 show ?case by simp
qed

lemma collect_triples_spec:
  "collect_triples env chs collected w =
     extract_each env (map page_content (filter (\<lambda>ch. 100 \<le> length (page_content ch)) chs)) collected w"
  by (induction chs arbitrary: collected w) (auto simp: Let_def not_less split: prod.splits)

lemma graph_tx_tick: "graph_tx (tick w) = graph_tx w" by (simp add: tick_def)
lemma graph_tx_print: "graph_tx (print l w) = graph_tx w" by (simp add: print_def)
lemma graph_tx_sleep: "graph_tx (sleep n w) = graph_tx w" by (simp add: sleep_def)

lemmas graph_tx_simps = graph_tx_tick graph_tx_print graph_tx_sleep

lemma graph_tx_get_driver: "graph_tx (snd (get_driver env w)) = graph_tx w"
  by (simp add: get_driver_def Let_def graph_tx_simps split: option.splits)

lemma graph_tx_extract_attempts: "graph_tx (snd (extract_attempts env t attempt w)) = graph_tx w"
proof (induction env t attempt w rule: extract_attempts.induct)
  case (1 env t attempt w)
  show ?case
    apply (subst extract_attempts.simps)
    using 1 apply (auto simp: Let_def graph_tx_simps split: sum.splits)
    done
qed

lemma graph_tx_extract: "graph_tx (snd (extract_triples_from_text env t w)) = graph_tx w"
  by (simp add: extract_triples_from_text_def graph_tx_extract_attempts)

lemma graph_tx_extract_each: "graph_tx (snd (extract_each env ts collected w)) = graph_tx w"
proof (induction ts arbitrary: collected w)
  case Nil
  show ?case by simp
next
  case (Cons t ts)
  obtain triples w1 where e: "extract_triples_from_text env t w = (triples, w1)"
    by (cases "extract_triples_from_text env t w")
  have "graph_tx w1 = graph_tx w" using graph_tx_extract [of env t w] e by simp
  then show ?case using e Cons.IH [of "collected @ triples" "sleep 1 w1"]
    by (simp add: graph_tx_simps)
qed

lemma take_drop_batch: "take n (drop i xs) @ drop (i + n) xs = drop i xs"
  by (metis add.commute append_take_drop_id drop_drop)

lemma upload_batches_spec:
  "\<exists>batches. graph_tx (snd (upload_batches env all_triples doc_id i w)) =
        graph_tx w @ map (\<lambda>b. (b, doc_id)) batches
     \<and> (\<forall>b \<in> set batches. b \<noteq> [] \<and> length b \<le> KG_BATCH_SIZE)
     \<and> (fst (upload_batches env all_triples doc_id i w) = Inr () \<longrightarrow>
          concat batches = drop i all_triples)"
proof (induction env all_triples doc_id i w rule: upload_batches.induct)
  case (1 env all_triples doc_id i w)
  let ?batch = "take KG_BATCH_SIZE (drop i all_triples)"
  show ?case
  proof (cases "i < length all_triples")
    case False
    then have "upload_batches env all_triples doc_id i w = (Inr (), w)"
      by (subst upload_batches.simps) simp
    with False show ?thesis by (intro exI [of _ "[]"]) simp
  next
    case True
    show ?thesis
    proof (cases "neo4j_write env (clock w) ?batch doc_id")
      case (Some e)
      with True have "upload_batches env all_triples doc_id i w = (Inl e, tick w)"
        by (subst upload_batches.simps) (simp add: Let_def)
      then show ?thesis by (intro exI [of _ "[]"]) (simp add: graph_tx_simps)
    next
      case None
      let ?w' = "print (Uploaded_KG_Batch (i div KG_BATCH_SIZE + 1) (length ?batch))
                  ((tick w)\<lparr>graph_tx := graph_tx w @ [(?batch, doc_id)]\<rparr>)"
      have step: "upload_batches env all_triples doc_id i w =
                  upload_batches env all_triples doc_id (i + KG_BATCH_SIZE) ?w'"
        using True None by (subst upload_batches.simps) (simp add: Let_def)
      from "1.IH" [OF True refl None]
      obtain batches where b:
        "graph_tx (snd (upload_batches env all_triples doc_id (i + KG_BATCH_SIZE) ?w')) =
           graph_tx ?w' @ map (\<lambda>b. (b, doc_id)) batches"
        "\<forall>b \<in> set batches. b \<noteq> [] \<and> length b \<le> KG_BATCH_SIZE"
        "fst (upload_batches env all_triples doc_id (i + KG_BATCH_SIZE) ?w') = Inr () \<longrightarrow>
           concat batches = drop (i + KG_BATCH_SIZE) all_triples"
        by blast
      have ne: "?batch \<noteq> []" using True by (simp add: KG_BATCH_SIZE_def)
      have le: "length ?batch \<le> KG_BATCH_SIZE" by simp
      have tx: "graph_tx ?w' = graph_tx w @ [(?batch, doc_id)]" by (simp add: print_def)
      show ?thesis
        apply (rule exI [of _ "?batch # batches"])
        unfolding step
        using b ne le tx take_drop_batch [of KG_BATCH_SIZE i all_triples]
        apply auto
        done
    qed
  qed
qed

text \<open>
  Claim C8. For every input chunk list, with a graph driver at hand: the chunks the upsert
  walks over are exactly those at the even indices 0, 2, 4, ...; of these it skips every
  chunk whose text is shorter than 100 characters and runs the extraction (followed by
  the one-second delay) on the remaining ones only, in order; and when no graph write
  raises, the transactions it adds to the graph are batches of at least one and at most
  500 triples whose concatenation is the list of all collected triples.
\<close>

theorem upsert_samples_and_batches:
  "slice_step2 chunks = map ((!) chunks) (filter even [0..<length chunks])
   \<and> collect_triples env (slice_step2 chunks) [] w2 =
       extract_each env (map page_content (spec_selected chunks)) [] w2
   \<and> (get_driver env w = (True, w1)
      \<and> fst (upsert_kg_from_chunks env chunks doc_id w) = Inr ()
      \<longrightarrow> (\<exists>batches.
            graph_tx (snd (upsert_kg_from_chunks env chunks doc_id w)) =
              graph_tx w @ map (\<lambda>b. (b, doc_id)) batches
            \<and> concat batches =
                fst (extract_each env (map page_content (spec_selected chunks)) []
                       (print (Building_KG (length (slice_step2 chunks)) (length chunks)) w1))
            \<and> (\<forall>b \<in> set batches. b \<noteq> [] \<and> length b \<le> 500)))"
proof (intro conjI impI)
  show "slice_step2 chunks = map ((!) chunks) (filter even [0..<length chunks])"
    by (simp add: slice_step2_even_indices spec_sampled_def)
  show c: "collect_triples env (slice_step2 chunks) [] w2 =
       extract_each env (map page_content (spec_selected chunks)) [] w2" for w2
    by (simp add: collect_triples_spec spec_selected_def slice_step2_even_indices)
  assume a: "get_driver env w = (True, w1)
      \<and> fst (upsert_kg_from_chunks env chunks doc_id w) = Inr ()"
  let ?w2 = "print (Building_KG (length (slice_step2 chunks)) (length chunks)) w1"
  let ?texts = "map page_content (spec_selected chunks)"
  obtain collected w3 where e: "extract_each env ?texts [] ?w2 = (collected, w3)"
    by (cases "extract_each env ?texts [] ?w2")
  have tx1: "graph_tx w1 = graph_tx w" using graph_tx_get_driver [of env w] a by simp
  have tx3: "graph_tx w3 = graph_tx w"
    using graph_tx_extract_each [of env ?texts "[]" ?w2] e tx1 by (simp add: graph_tx_simps)
  have u: "upsert_kg_from_chunks env chunks doc_id w =
      (if collected = [] then (Inr (), print No_Triples_Extracted w3)
       else upload_batches env collected doc_id 0 w3)"
    using a e by (simp add: upsert_kg_from_chunks_def Let_def c)
  show "\<exists>batches.
            graph_tx (snd (upsert_kg_from_chunks env chunks doc_id w)) =
              graph_tx w @ map (\<lambda>b. (b, doc_id)) batches
            \<and> concat batches = fst (extract_each env ?texts [] ?w2)
            \<and> (\<forall>b \<in> set batches. b \<noteq> [] \<and> length b \<le> 500)"
  proof (cases "collected = []")
    case True
    with u e tx3 show ?thesis
      by (intro exI [of _ "[]"]) (simp add: graph_tx_simps)
  next
    case False
    with u have u': "upsert_kg_from_chunks env chunks doc_id w = upload_batches env collected doc_id 0 w3"
      by simp
    from upload_batches_spec [of env collected doc_id 0 w3]
    obtain batches where b:
      "graph_tx (snd (upload_batches env collected doc_id 0 w3)) =
         graph_tx w3 @ map (\<lambda>b. (b, doc_id)) batches"
      "\<forall>b \<in> set batches. b \<noteq> [] \<and> length b \<le> KG_BATCH_SIZE"
      "fst (upload_batches env collected doc_id 0 w3) = Inr () \<longrightarrow> concat batches = drop 0 collected"
      by blast
    show ?thesis
      apply (rule exI [of _ batches])
      using a b e tx3 unfolding u' by (simp add: KG_BATCH_SIZE_def)
  qed
qed

theorem upsert_samples_and_batches_witness:
  "\<exists>batches.
     graph_tx (snd (upsert_kg_from_chunks triple_env
        [long_chunk, long_chunk, short_chunk, long_chunk, long_chunk] ''doc-1'' fresh_world)) =
       map (\<lambda>b. (b, ''doc-1'')) batches
     \<and> concat batches = [dog_triple, dog_triple]
     \<and> spec_selected [long_chunk, long_chunk, short_chunk, long_chunk, long_chunk] =
         [long_chunk, long_chunk]"
proof -
  let ?chunks = "[long_chunk, long_chunk, short_chunk, long_chunk, long_chunk]"
  let ?w1 = "snd (get_driver triple_env fresh_world)"
  have h1: "get_driver triple_env fresh_world = (True, ?w1)" by code_simp
  have h2: "fst (upsert_kg_from_chunks triple_env ?chunks ''doc-1'' fresh_world) = Inr ()"
    by code_simp
  have sel: "spec_selected ?chunks = [long_chunk, long_chunk]" by code_simp
  have e: "fst (extract_each triple_env (map page_content (spec_selected ?chunks)) []
                 (print (Building_KG (length (slice_step2 ?chunks)) (length ?chunks)) ?w1)) =
           [dog_triple, dog_triple]"
    by code_simp
  have g: "graph_tx fresh_world = []" by (simp add: fresh_world_def)
  from upsert_samples_and_batches [where chunks = ?chunks and env = triple_env and w = fresh_world
      and ?w1.0 = ?w1 and doc_id = "''doc-1''" and ?w2.0 = fresh_world] h1 h2
  obtain batches where
    "graph_tx (snd (upsert_kg_from_chunks triple_env ?chunks ''doc-1'' fresh_world)) =
       graph_tx fresh_world @ map (\<lambda>b. (b, ''doc-1'')) batches"
    "concat batches =
       fst (extract_each triple_env (map page_content (spec_selected ?chunks)) []
              (print (Building_KG (length (slice_step2 ?chunks)) (length ?chunks)) ?w1))"
    by blast
  with e g sel show ?thesis by auto
qed

section \<open>What the parts of the pipeline leave alone\<close>

text \<open>Only \<open>ingest_pdf\<close> opens and closes the PDF handle, and only the call of the
  callback adds to the recorded progress.\<close>

lemma kept_tick: "progress (tick w) = progress w \<and> open_handles (tick w) = open_handles w"
  by (simp add: tick_def)

lemma kept_print: "progress (print l w) = progress w \<and> open_handles (print l w) = open_handles w"
  by (simp add: print_def)

lemma kept_sleep: "progress (sleep n w) = progress w \<and> open_handles (sleep n w) = open_handles w"
  by (simp add: sleep_def)

lemmas kept_simps = kept_tick kept_print kept_sleep

lemma kept_get_driver:
  "progress (snd (get_driver env w)) = progress w
   \<and> open_handles (snd (get_driver env w)) = open_handles w"
  by (simp add: get_driver_def Let_def kept_simps split: option.splits)

lemma kept_extract_attempts:
  "progress (snd (extract_attempts env t attempt w)) = progress w
   \<and> open_handles (snd (extract_attempts env t attempt w)) = open_handles w"
proof (induction env t attempt w rule: extract_attempts.induct)
  case (1 env t attempt w)
  show ?case
    apply (subst (1 2) extract_attempts.simps)
    using 1 apply (auto simp: Let_def kept_simps split: sum.splits)
    done
qed

lemma kept_extract:
  "progress (snd (extract_triples_from_text env t w)) = progress w
   \<and> open_handles (snd (extract_triples_from_text env t w)) = open_handles w"
  by (simp add: extract_triples_from_text_def kept_extract_attempts)

lemma kept_collect_triples:
  "progress (snd (collect_triples env chs collected w)) = progress w
   \<and> open_handles (snd (collect_triples env chs collected w)) = open_handles w"
proof (induction chs arbitrary: collected w)
  case Nil
  show ?case by simp
next
  case (Cons ch chs)
  obtain triples w1 where e: "extract_triples_from_text env (page_content ch) w = (triples, w1)"
    by (cases "extract_triples_from_text env (page_content ch) w")
  have k: "progress w1 = progress w \<and> open_handles w1 = open_handles w"
    using kept_extract [of env "page_content ch" w] e by simp
  show ?case
    using e k Cons.IH [of collected w] Cons.IH [of "collected @ triples" "sleep 1 w1"]
    by (simp add: Let_def kept_simps)
qed

lemma kept_upload_batches:
  "progress (snd (upload_batches env all_triples doc_id i w)) = progress w
   \<and> open_handles (snd (upload_batches env all_triples doc_id i w)) = open_handles w"
proof (induction env all_triples doc_id i w rule: upload_batches.induct)
  case (1 env all_triples doc_id i w)
  show ?case
    apply (subst (1 2) upload_batches.simps)
    using 1 apply (auto simp: Let_def kept_simps print_def tick_def split: option.splits)
    done
qed

lemma kept_upsert:
  "progress (snd (upsert_kg_from_chunks env chunks doc_id w)) = progress w
   \<and> open_handles (snd (upsert_kg_from_chunks env chunks doc_id w)) = open_handles w"
proof -
  obtain drv w1 where g: "get_driver env w = (drv, w1)" by (cases "get_driver env w")
  let ?w2 = "print (Building_KG (length (slice_step2 chunks)) (length chunks)) w1"
  obtain collected w3 where c: "collect_triples env (slice_step2 chunks) [] ?w2 = (collected, w3)"
    by (cases "collect_triples env (slice_step2 chunks) [] ?w2")
  have k1: "progress w1 = progress w \<and> open_handles w1 = open_handles w"
    using kept_get_driver [of env w] g by simp
  have k3: "progress w3 = progress w \<and> open_handles w3 = open_handles w"
    using kept_collect_triples [of env "slice_step2 chunks" "[]" ?w2] c k1 by (simp add: kept_simps)
  show ?thesis
    using g c k1 k3 kept_upload_batches [of env collected doc_id 0 w3]
    by (simp add: upsert_kg_from_chunks_def Let_def kept_simps)
qed

lemma kept_add_batches:
  "progress (snd (add_batches env chunks i w)) = progress w
   \<and> open_handles (snd (add_batches env chunks i w)) = open_handles w"
proof (induction env chunks i w rule: add_batches.induct)
  case (1 env chunks i w)
  show ?case
    apply (subst (1 2) add_batches.simps)
    using 1 apply (auto simp: Let_def kept_simps print_def tick_def split: option.splits)
    done
qed

lemma kept_add_chunks:
  "progress (snd (add_chunks env chunks w)) = progress w
   \<and> open_handles (snd (add_chunks env chunks w)) = open_handles w"
  using kept_add_batches [of env chunks 0 "tick w"]
  by (simp add: add_chunks_def kept_simps split: option.splits)

lemma kept_analyze_attempts:
  "progress (snd (analyze_attempts env msg attempt w)) = progress w
   \<and> open_handles (snd (analyze_attempts env msg attempt w)) = open_handles w"
proof (induction env msg attempt w rule: analyze_attempts.induct)
  case (1 env msg attempt w)
  show ?case
    apply (subst (1 2) analyze_attempts.simps)
    using 1 apply (auto simp: Let_def kept_simps split: sum.splits)
    done
qed

lemma kept_analyze:
  "progress (snd (analyze_image_with_gpt env img pt w)) = progress w
   \<and> open_handles (snd (analyze_image_with_gpt env img pt w)) = open_handles w"
  using kept_analyze_attempts [of env "Vision pt img" 0 w]
  by (cases "analyze_attempts env (Vision pt img) 0 w")
     (auto simp: analyze_image_with_gpt_def kept_simps split: sum.splits)

lemma kept_process_images:
  "progress (snd (process_images env imgs k pn did fn docs w)) = progress w
   \<and> open_handles (snd (process_images env imgs k pn did fn docs w)) = open_handles w"
proof (induction imgs arbitrary: k docs w)
  case Nil
  show ?case by simp
next
  case (Cons img imgs)
  show ?case
  proof (cases img)
    case (Inl e)
    then show ?thesis by simp
  next
    case (Inr base_image)
    let ?path = "STATIC_IMG_DIR @ ''/'' @ did @ ''_p'' @ str_nat (pn + 1) @ ''_i'' @ str_nat k
                   @ ''.'' @ image_ext base_image"
    let ?w1 = "w\<lparr>files_written := files_written w @ [(?path, image_data base_image)]\<rparr>"
    obtain d w2 where a: "analyze_image_with_gpt env (image_data base_image) DESCRIBE_PROMPT ?w1 = (d, w2)"
      by (cases "analyze_image_with_gpt env (image_data base_image) DESCRIBE_PROMPT ?w1")
    have k2: "progress w2 = progress w \<and> open_handles w2 = open_handles w"
      using kept_analyze [of env "image_data base_image" DESCRIBE_PROMPT ?w1] a by simp
    show ?thesis
      using Inr a k2 Cons.IH
      by (simp add: Let_def split: option.splits)
  qed
qed

lemma kept_process_pdf_page:
  "progress (snd (process_pdf_page env doc_pdf i did fn deep w)) = progress w
   \<and> open_handles (snd (process_pdf_page env doc_pdf i did fn deep w)) = open_handles w"
proof (cases "load_page doc_pdf i")
  case (Inl e)
  then show ?thesis by (simp add: process_pdf_page_def)
next
  case page: (Inr page)
  show ?thesis
  proof (cases "get_text page")
    case (Inl e)
    with page show ?thesis by (simp add: process_pdf_page_def)
  next
    case text0: (Inr text0)
    let ?w1 = "print (Page_Seems_Scanned (i + 1)) w"
    show ?thesis
    proof (cases "length (strip text0) < 50 \<and> deep")
      case False
      then show ?thesis
        using page text0 kept_process_images [of env _ 0 i did fn _ w]
        by (auto simp: process_pdf_page_def Let_def split: sum.splits)
    next
      case True
      show ?thesis
      proof (cases "get_pixmap_png page")
        case (Inl e)
        with True page text0 show ?thesis
          by (simp add: process_pdf_page_def Let_def kept_simps)
      next
        case (Inr img_bytes)
        obtain r w2 where a: "analyze_image_with_gpt env img_bytes OCR_PROMPT ?w1 = (r, w2)"
          by (cases "analyze_image_with_gpt env img_bytes OCR_PROMPT ?w1")
        have k2: "progress w2 = progress w \<and> open_handles w2 = open_handles w"
          using kept_analyze [of env img_bytes OCR_PROMPT ?w1] a by (simp add: kept_simps)
        show ?thesis
          using True page text0 Inr a k2 kept_process_images [of env _ 0 i did fn _ w2]
          by (auto simp: process_pdf_page_def Let_def split: sum.splits)
      qed
    qed
  qed
qed

section \<open>Whether a page raises does not depend on the world\<close>

lemma process_images_raise_static:
  "isl (fst (process_images env imgs k pn did fn docs w)) =
   isl (fst (process_images env imgs k pn did fn' docs' w'))"
proof (induction imgs arbitrary: k docs w docs' w')
  case Nil
  show ?case by simp
next
  case (Cons img imgs)
  show ?case
  proof (cases img)
    case (Inl e)
    then show ?thesis by simp
  next
    case (Inr base_image)
    let ?path = "STATIC_IMG_DIR @ ''/'' @ did @ ''_p'' @ str_nat (pn + 1) @ ''_i'' @ str_nat k
                   @ ''.'' @ image_ext base_image"
    let ?w1 = "w\<lparr>files_written := files_written w @ [(?path, image_data base_image)]\<rparr>"
    let ?w1' = "w'\<lparr>files_written := files_written w' @ [(?path, image_data base_image)]\<rparr>"
    obtain d w2 where a: "analyze_image_with_gpt env (image_data base_image) DESCRIBE_PROMPT ?w1 = (d, w2)"
      by (cases "analyze_image_with_gpt env (image_data base_image) DESCRIBE_PROMPT ?w1")
    obtain d' w2' where a': "analyze_image_with_gpt env (image_data base_image) DESCRIBE_PROMPT ?w1' = (d', w2')"
      by (cases "analyze_image_with_gpt env (image_data base_image) DESCRIBE_PROMPT ?w1'")
    show ?thesis
    proof (cases "length (image_data base_image) < 10000")
      case True
      with Inr show ?thesis using Cons.IH [of "Suc k" docs w docs' w'] by (simp add: Let_def)
    next
      case False
      show ?thesis
      proof (cases "write_file env ?path (image_data base_image)")
        case (Some e)
        with False Inr show ?thesis by (simp add: Let_def)
      next
        case None
        with False Inr a a' show ?thesis
          using Cons.IH [of "Suc k" _ w2 _ w2'] by (simp add: Let_def)
      qed
    qed
  qed
qed

lemma process_pdf_page_raise_static:
  "isl (fst (process_pdf_page env doc_pdf i did fn deep w)) =
   isl (fst (process_pdf_page env doc_pdf i did fn' deep w'))"
proof (cases "load_page doc_pdf i")
  case (Inl e)
  then show ?thesis by (simp add: process_pdf_page_def)
next
  case page: (Inr page)
  show ?thesis
  proof (cases "get_text page")
    case (Inl e)
    with page show ?thesis by (simp add: process_pdf_page_def)
  next
    case text0: (Inr text0)
    show ?thesis
    proof (cases "length (strip text0) < 50 \<and> deep")
      case False
      then show ?thesis
        using page text0 process_images_raise_static [of env _ 0 i did fn _ w fn' _ w']
        by (auto simp: process_pdf_page_def Let_def split: sum.splits)
    next
      case True
      let ?w1 = "print (Page_Seems_Scanned (i + 1)) w"
      let ?w1' = "print (Page_Seems_Scanned (i + 1)) w'"
      show ?thesis
      proof (cases "get_pixmap_png page")
        case (Inl e)
        with True page text0 show ?thesis by (simp add: process_pdf_page_def Let_def)
      next
        case (Inr img_bytes)
        obtain r w2 where a: "analyze_image_with_gpt env img_bytes OCR_PROMPT ?w1 = (r, w2)"
          by (cases "analyze_image_with_gpt env img_bytes OCR_PROMPT ?w1")
        obtain r' w2' where a': "analyze_image_with_gpt env img_bytes OCR_PROMPT ?w1' = (r', w2')"
          by (cases "analyze_image_with_gpt env img_bytes OCR_PROMPT ?w1'")
        show ?thesis
          using True page text0 Inr a a' process_images_raise_static [of env _ 0 i did fn _ w2 fn' _ w2']
          by (auto simp: process_pdf_page_def Let_def split: sum.splits)
      qed
    qed
  qed
qed

lemma page_raises_iff:
  "isl (fst (process_pdf_page env doc_pdf i did fn deep w)) = page_raises env doc_pdf i did deep"
  unfolding page_raises_def by (rule process_pdf_page_raise_static)

section \<open>The page loop and the batch loop of the ingestion\<close>

lemma ingest_pages_handles:
  "open_handles (snd (ingest_pages env doc_pdf pages did fn deep cb total_pages bd w)) = open_handles w"
proof (induction pages arbitrary: bd w)
  case Nil
  show ?case by simp
next
  case (Cons i pages)
  obtain r w1 where p: "process_pdf_page env doc_pdf i did fn deep w = (r, w1)"
    by (cases "process_pdf_page env doc_pdf i did fn deep w")
  have k1: "open_handles w1 = open_handles w"
    using kept_process_pdf_page [of env doc_pdf i did fn deep w] p by simp
  show ?case
  proof (cases r)
    case (Inl e)
    with p k1 show ?thesis using Cons.IH by (simp add: kept_simps)
  next
    case (Inr page_docs)
    with p k1 show ?thesis using Cons.IH
      by (cases cb) (auto simp: call_progress_def kept_simps split: option.splits)
  qed
qed

lemma ingest_pages_no_callback:
  "progress (snd (ingest_pages env doc_pdf pages did fn deep None total_pages bd w)) = progress w"
proof (induction pages arbitrary: bd w)
  case Nil
  show ?case by simp
next
  case (Cons i pages)
  obtain r w1 where p: "process_pdf_page env doc_pdf i did fn deep w = (r, w1)"
    by (cases "process_pdf_page env doc_pdf i did fn deep w")
  have k1: "progress w1 = progress w"
    using kept_process_pdf_page [of env doc_pdf i did fn deep w] p by simp
  show ?case
    using p k1 Cons.IH by (cases r) (simp_all add: kept_simps)
qed

lemma ingest_pages_progress:
  "progress (snd (ingest_pages env doc_pdf pages did fn deep (Some f) total_pages bd w)) =
     progress w @ map (\<lambda>i. (i + 1, total_pages)) (filter (\<lambda>i. \<not> page_raises env doc_pdf i did deep) pages)"
proof (induction pages arbitrary: bd w)
  case Nil
  show ?case by simp
next
  case (Cons i pages)
  obtain r w1 where p: "process_pdf_page env doc_pdf i did fn deep w = (r, w1)"
    by (cases "process_pdf_page env doc_pdf i did fn deep w")
  have k1: "progress w1 = progress w"
    using kept_process_pdf_page [of env doc_pdf i did fn deep w] p by simp
  have raises: "page_raises env doc_pdf i did deep = isl r"
    using page_raises_iff [of env doc_pdf i did fn deep w] p by simp
  show ?case
  proof (cases r)
    case (Inl e)
    with p k1 raises show ?thesis using Cons.IH by (simp add: kept_simps)
  next
    case (Inr page_docs)
    with p k1 raises show ?thesis using Cons.IH
      by (cases "f (i + 1) total_pages") (simp_all add: call_progress_def kept_simps)
  qed
qed

lemma filter_upt_append:
  "a \<le> b \<Longrightarrow> b \<le> c \<Longrightarrow> filter P [a..<b] @ filter P [b..<c] = filter P [a..<c]"
  by (metis filter_append le_Suc_ex upt_add_eq_append)

lemma ingest_batches_spec:
  "\<exists>n. n \<le> total_pages
     \<and> progress (snd (ingest_batches env doc_pdf did fn deep (Some f) total_pages bs w)) =
         progress w @ map (\<lambda>i. (i + 1, total_pages))
                        (filter (\<lambda>i. \<not> page_raises env doc_pdf i did deep) [bs..<n])
     \<and> (fst (ingest_batches env doc_pdf did fn deep (Some f) total_pages bs w) = Inr ()
          \<longrightarrow> [bs..<n] = [bs..<total_pages])"
proof (induction "total_pages - bs" arbitrary: bs w rule: less_induct)
  case less
  let ?ok = "\<lambda>i. \<not> page_raises env doc_pdf i did deep"
  let ?g = "\<lambda>pages. map (\<lambda>i. (i + 1, total_pages)) (filter ?ok pages)"
  let ?r = "ingest_batches env doc_pdf did fn deep (Some f) total_pages bs w"
  show ?case
  proof (cases "bs < total_pages")
    case False
    then have "?r = (Inr (), w)" by (subst ingest_batches.simps) simp
    with False show ?thesis by (intro exI [of _ total_pages]) simp
  next
    case True
    let ?be = "min (bs + BATCH_SIZE) total_pages"
    let ?w1 = "print (Processing_Pages (bs + 1) ?be) w"
    obtain bd w2 where pg: "ingest_pages env doc_pdf [bs..<?be] did fn deep (Some f) total_pages [] ?w1 = (bd, w2)"
      by (cases "ingest_pages env doc_pdf [bs..<?be] did fn deep (Some f) total_pages [] ?w1")
    have pr2: "progress w2 = progress w @ ?g [bs..<?be]"
      using ingest_pages_progress [of env doc_pdf "[bs..<?be]" did fn deep f total_pages "[]" ?w1] pg
      by (simp add: kept_simps)
    have be: "bs \<le> ?be" "?be \<le> total_pages" using True by simp_all
    have dec: "total_pages - (bs + BATCH_SIZE) < total_pages - bs" using True by (simp add: BATCH_SIZE_def)
    have stop: "\<exists>n. n \<le> total_pages \<and> progress w' = progress w @ ?g [bs..<n]
                 \<and> (Inl e = Inr () \<longrightarrow> [bs..<n] = [bs..<total_pages])"
      if "progress w' = progress w2" for w' and e :: exn
      using that pr2 be by (intro exI [of _ ?be]) simp
    have go: "\<exists>n. n \<le> total_pages
        \<and> progress (snd (ingest_batches env doc_pdf did fn deep (Some f) total_pages (bs + BATCH_SIZE) w')) =
            progress w @ ?g [bs..<n]
        \<and> (fst (ingest_batches env doc_pdf did fn deep (Some f) total_pages (bs + BATCH_SIZE) w') = Inr ()
             \<longrightarrow> [bs..<n] = [bs..<total_pages])"
      if w': "progress w' = progress w2" for w'
    proof -
      let ?r' = "ingest_batches env doc_pdf did fn deep (Some f) total_pages (bs + BATCH_SIZE) w'"
      from less [OF dec, of w'] obtain n where n: "n \<le> total_pages"
        "progress (snd ?r') = progress w' @ ?g [bs + BATCH_SIZE..<n]"
        "fst ?r' = Inr () \<longrightarrow> [bs + BATCH_SIZE..<n] = [bs + BATCH_SIZE..<total_pages]"
        by blast
      show ?thesis
      proof (cases "bs + BATCH_SIZE \<le> n")
        case True
        then have be': "?be = bs + BATCH_SIZE" using n(1) by simp
        have "filter ?ok [bs..<bs + BATCH_SIZE] @ filter ?ok [bs + BATCH_SIZE..<n] = filter ?ok [bs..<n]"
          using True by (intro filter_upt_append) simp_all
        then have "?g [bs..<?be] @ ?g [bs + BATCH_SIZE..<n] = ?g [bs..<n]"
          unfolding be' by (simp flip: map_append)
        moreover have "fst ?r' = Inr () \<longrightarrow> [bs..<n] = [bs..<total_pages]"
        proof
          assume "fst ?r' = Inr ()"
          with n(3) have "length [bs + BATCH_SIZE..<n] = length [bs + BATCH_SIZE..<total_pages]"
            by simp
          then have "n = total_pages" using True n(1) by simp
          then show "[bs..<n] = [bs..<total_pages]" by simp
        qed
        ultimately show ?thesis
          using n w' pr2 by (intro exI [of _ n]) simp
      next
        case False
        then have e: "[bs + BATCH_SIZE..<n] = []" by simp
        have "fst ?r' = Inr () \<longrightarrow> [bs..<?be] = [bs..<total_pages]"
        proof
          assume "fst ?r' = Inr ()"
          with n(3) e have "[bs + BATCH_SIZE..<total_pages] = []" by simp
          then have "total_pages \<le> bs + BATCH_SIZE" by auto
          then have "?be = total_pages" by simp
          then show "[bs..<?be] = [bs..<total_pages]" by simp
        qed
        then show ?thesis
          using n(2) e w' pr2 be by (intro exI [of _ ?be]) simp
      qed
    qed
    show ?thesis
    proof (cases "bd = []")
      case True
      then have "?r = ingest_batches env doc_pdf did fn deep (Some f) total_pages (bs + BATCH_SIZE) w2"
        using \<open>bs < total_pages\<close> pg by (subst ingest_batches.simps) (simp add: Let_def)
      with go [of w2] show ?thesis by simp
    next
      case bd: False
      show ?thesis
      proof (cases "split_documents env bd")
        case (Inl e)
        then have "?r = (Inl e, w2)"
          using \<open>bs < total_pages\<close> pg bd by (subst ingest_batches.simps) (simp add: Let_def)
        with stop [of w2 e] show ?thesis by simp
      next
        case (Inr chunks)
        obtain ra w3 where ac: "add_chunks env chunks w2 = (ra, w3)"
          by (cases "add_chunks env chunks w2")
        have k3: "progress w3 = progress w2" using kept_add_chunks [of env chunks w2] ac by simp
        show ?thesis
        proof (cases ra)
          case (Inl e)
          then have "?r = (Inl e, w3)"
            using \<open>bs < total_pages\<close> pg bd Inr ac by (subst ingest_batches.simps) (simp add: Let_def)
          with stop [of w3 e] k3 show ?thesis by simp
        next
          case ra: (Inr u)
          obtain rk w4 where up: "upsert_kg_from_chunks env chunks did w3 = (rk, w4)"
            by (cases "upsert_kg_from_chunks env chunks did w3")
          have k4: "progress w4 = progress w2"
            using kept_upsert [of env chunks did w3] up k3 by simp
          show ?thesis
          proof (cases rk)
            case (Inl e)
            then have "?r = (Inl e, w4)"
              using \<open>bs < total_pages\<close> pg bd Inr ac ra up
              by (subst ingest_batches.simps) (simp add: Let_def)
            with stop [of w4 e] k4 show ?thesis by simp
          next
            case (Inr v)
            let ?w5 = "print (Uploaded_Batch (bs div BATCH_SIZE + 1) (length chunks)) w4"
            have "?r = ingest_batches env doc_pdf did fn deep (Some f) total_pages (bs + BATCH_SIZE) ?w5"
              using \<open>bs < total_pages\<close> pg bd \<open>split_documents env bd = Inr chunks\<close> ac ra up Inr
              by (subst ingest_batches.simps) (simp add: Let_def)
            with go [of ?w5] k4 show ?thesis by (simp add: kept_simps)
          qed
        qed
      qed
    qed
  qed
qed

lemma ingest_batches_handles:
  "open_handles (snd (ingest_batches env doc_pdf did fn deep cb total_pages bs w)) = open_handles w"
proof (induction "total_pages - bs" arbitrary: bs w rule: less_induct)
  case less
  let ?r = "ingest_batches env doc_pdf did fn deep cb total_pages bs w"
  show ?case
  proof (cases "bs < total_pages")
    case False
    then have "?r = (Inr (), w)" by (subst ingest_batches.simps) simp
    then show ?thesis by simp
  next
    case True
    let ?be = "min (bs + BATCH_SIZE) total_pages"
    let ?w1 = "print (Processing_Pages (bs + 1) ?be) w"
    obtain bd w2 where pg: "ingest_pages env doc_pdf [bs..<?be] did fn deep cb total_pages [] ?w1 = (bd, w2)"
      by (cases "ingest_pages env doc_pdf [bs..<?be] did fn deep cb total_pages [] ?w1")
    have h2: "open_handles w2 = open_handles w"
      using ingest_pages_handles [of env doc_pdf "[bs..<?be]" did fn deep cb total_pages "[]" ?w1] pg
      by (simp add: kept_simps)
    have dec: "total_pages - (bs + BATCH_SIZE) < total_pages - bs" using True by (simp add: BATCH_SIZE_def)
    note IH = less [OF dec]
    show ?thesis
    proof (cases "bd = []")
      case True
      then have "?r = ingest_batches env doc_pdf did fn deep cb total_pages (bs + BATCH_SIZE) w2"
        using \<open>bs < total_pages\<close> pg by (subst ingest_batches.simps) (simp add: Let_def)
      with IH [of w2] h2 show ?thesis by simp
    next
      case bd: False
      show ?thesis
      proof (cases "split_documents env bd")
        case (Inl e)
        then have "?r = (Inl e, w2)"
          using \<open>bs < total_pages\<close> pg bd by (subst ingest_batches.simps) (simp add: Let_def)
        with h2 show ?thesis by simp
      next
        case (Inr chunks)
        obtain ra w3 where ac: "add_chunks env chunks w2 = (ra, w3)"
          by (cases "add_chunks env chunks w2")
        have h3: "open_handles w3 = open_handles w"
          using kept_add_chunks [of env chunks w2] ac h2 by simp
        show ?thesis
        proof (cases ra)
          case (Inl e)
          then have "?r = (Inl e, w3)"
            using \<open>bs < total_pages\<close> pg bd Inr ac by (subst ingest_batches.simps) (simp add: Let_def)
          with h3 show ?thesis by simp
        next
          case ra: (Inr u)
          obtain rk w4 where up: "upsert_kg_from_chunks env chunks did w3 = (rk, w4)"
            by (cases "upsert_kg_from_chunks env chunks did w3")
          have h4: "open_handles w4 = open_handles w"
            using kept_upsert [of env chunks did w3] up h3 by simp
          show ?thesis
          proof (cases rk)
            case (Inl e)
            then have "?r = (Inl e, w4)"
              using \<open>bs < total_pages\<close> pg bd Inr ac ra up
              by (subst ingest_batches.simps) (simp add: Let_def)
            with h4 show ?thesis by simp
          next
            case (Inr v)
            let ?w5 = "print (Uploaded_Batch (bs div BATCH_SIZE + 1) (length chunks)) w4"
            have "?r = ingest_batches env doc_pdf did fn deep cb total_pages (bs + BATCH_SIZE) ?w5"
              using \<open>bs < total_pages\<close> pg bd \<open>split_documents env bd = Inr chunks\<close> ac ra up Inr
              by (subst ingest_batches.simps) (simp add: Let_def)
            with IH [of ?w5] h4 show ?thesis by (simp add: kept_simps)
          qed
        qed
      qed
    qed
  qed
qed

lemma ingest_pdf_opened:
  "fitz_open env file_bytes = Inr doc_pdf \<Longrightarrow>
   ingest_pdf env file_bytes file_name doc_id deep_ocr cb w =
     (case ingest_batches env doc_pdf doc_id file_name deep_ocr cb (length doc_pdf) 0
             (print (Processing_File file_name (length doc_pdf) deep_ocr)
                (w\<lparr>open_handles := Suc (open_handles w)\<rparr>)) of
        (Inl e, w3) \<Rightarrow> (Inl e, w3)
      | (Inr u, w3) \<Rightarrow> (Inr doc_id, w3\<lparr>open_handles := open_handles w3 - 1\<rparr>))"
  by (simp add: ingest_pdf_def Let_def)

text \<open>
  Claim C1, as the code has it. For every page processed by the Ingestion Pipeline with a
  progress callback supplied, the callback is invoked exactly once with (current page,
  total pages) after that page when the extraction of the page succeeded (also when the
  callback itself then raises), and it is not invoked for a page whose extraction failed.
  Over a whole ingestion the recorded calls are, in page order, one call
  \<open>(i + 1, total)\<close> for each page \<open>i\<close> among the pages processed whose extraction does
  not raise; when the ingestion returns, the pages processed are all pages.
\<close>

theorem progress_after_extracted_pages:
  "(fitz_open env file_bytes = Inr doc_pdf \<longrightarrow>
      (\<exists>n. n \<le> length doc_pdf
         \<and> progress (snd (ingest_pdf env file_bytes file_name doc_id deep_ocr (Some f) w)) =
             progress w @ spec_progress env doc_pdf doc_id deep_ocr [0..<n]
         \<and> (fst (ingest_pdf env file_bytes file_name doc_id deep_ocr (Some f) w) = Inr doc_id
              \<longrightarrow> n = length doc_pdf)))
   \<and> (fst (process_pdf_page env doc_pdf i doc_id file_name deep_ocr w) = Inr page_docs \<longrightarrow>
        progress (snd (ingest_pages env doc_pdf [i] doc_id file_name deep_ocr (Some f) total_pages
                         batch_docs w)) = progress w @ [(i + 1, total_pages)])
   \<and> (fst (process_pdf_page env doc_pdf i doc_id file_name deep_ocr w) = Inl e \<longrightarrow>
        progress (snd (ingest_pages env doc_pdf [i] doc_id file_name deep_ocr (Some f) total_pages
                         batch_docs w)) = progress w)"
proof (intro conjI impI)
  assume o: "fitz_open env file_bytes = Inr doc_pdf"
  let ?w2 = "print (Processing_File file_name (length doc_pdf) deep_ocr)
                (w\<lparr>open_handles := Suc (open_handles w)\<rparr>)"
  let ?b = "ingest_batches env doc_pdf doc_id file_name deep_ocr (Some f) (length doc_pdf) 0 ?w2"
  let ?r = "ingest_pdf env file_bytes file_name doc_id deep_ocr (Some f) w"
  from ingest_batches_spec [of "length doc_pdf" env doc_pdf doc_id file_name deep_ocr f 0 ?w2]
  obtain n where n: "n \<le> length doc_pdf"
    "progress (snd ?b) = progress ?w2 @ map (\<lambda>i. (i + 1, length doc_pdf))
         (filter (\<lambda>i. \<not> page_raises env doc_pdf i doc_id deep_ocr) [0..<n])"
    "fst ?b = Inr () \<longrightarrow> [0..<n] = [0..<length doc_pdf]"
    by blast
  obtain rb w3 where b: "?b = (rb, w3)" by (cases ?b)
  have r: "?r = (case rb of Inl e \<Rightarrow> (Inl e, w3)
                 | Inr u \<Rightarrow> (Inr doc_id, w3\<lparr>open_handles := open_handles w3 - 1\<rparr>))"
    unfolding ingest_pdf_opened [OF o] b by (simp split: sum.splits)
  have p: "progress (snd ?r) = progress w3" unfolding r by (cases rb) simp_all
  have "progress (snd ?r) = progress w @ spec_progress env doc_pdf doc_id deep_ocr [0..<n]"
    using n(2) b p by (simp add: spec_progress_def print_def)
  moreover have "fst ?r = Inr doc_id \<longrightarrow> n = length doc_pdf"
  proof
    assume "fst ?r = Inr doc_id"
    then have "rb = Inr ()" unfolding r by (cases rb) simp_all
    with n(3) b have "length [0..<n] = length [0..<length doc_pdf]" by simp
    then show "n = length doc_pdf" by simp
  qed
  ultimately show "\<exists>n. n \<le> length doc_pdf
         \<and> progress (snd ?r) = progress w @ spec_progress env doc_pdf doc_id deep_ocr [0..<n]
         \<and> (fst ?r = Inr doc_id \<longrightarrow> n = length doc_pdf)"
    using n(1) by blast
next
  assume a: "fst (process_pdf_page env doc_pdf i doc_id file_name deep_ocr w) = Inr page_docs"
  then have "\<not> page_raises env doc_pdf i doc_id deep_ocr"
    using page_raises_iff [of env doc_pdf i doc_id file_name deep_ocr w] by simp
  then show "progress (snd (ingest_pages env doc_pdf [i] doc_id file_name deep_ocr (Some f) total_pages
                         batch_docs w)) = progress w @ [(i + 1, total_pages)]"
    by (simp only: ingest_pages_progress) simp
next
  assume a: "fst (process_pdf_page env doc_pdf i doc_id file_name deep_ocr w) = Inl e"
  then have "page_raises env doc_pdf i doc_id deep_ocr"
    using page_raises_iff [of env doc_pdf i doc_id file_name deep_ocr w] by simp
  then show "progress (snd (ingest_pages env doc_pdf [i] doc_id file_name deep_ocr (Some f) total_pages
                         batch_docs w)) = progress w"
    by (simp only: ingest_pages_progress) simp
qed

theorem progress_after_extracted_pages_witness:
  "progress (snd (ingest_pdf (pdf_env [text_page, broken_page, text_page]) [] ''book.pdf'' ''doc-1''
                    False (Some silent_callback) fresh_world)) = [(1, 3), (3, 3)]
   \<and> progress (snd (ingest_pages (pdf_env [text_page, broken_page, text_page])
                      [text_page, broken_page, text_page] [0] ''doc-1'' ''book.pdf'' False
                      (Some silent_callback) 3 [] fresh_world)) = [(1, 3)]
   \<and> progress (snd (ingest_pages (pdf_env [text_page, broken_page, text_page])
                      [text_page, broken_page, text_page] [1] ''doc-1'' ''book.pdf'' False
                      (Some silent_callback) 3 [] fresh_world)) = []"
proof -
  let ?doc = "[text_page, broken_page, text_page]"
  let ?env = "pdf_env ?doc"
  have o: "fitz_open ?env [] = Inr ?doc" by (simp add: pdf_env_def quiet_env_def)
  have ret: "fst (ingest_pdf ?env [] ''book.pdf'' ''doc-1'' False (Some silent_callback) fresh_world)
               = Inr ''doc-1''" by code_simp
  have sp: "spec_progress ?env ?doc ''doc-1'' False [0..<length ?doc] = [(1, 3), (3, 3)]"
    by code_simp
  have p0: "\<not> isl (fst (process_pdf_page ?env ?doc 0 ''doc-1'' ''book.pdf'' False fresh_world))"
    by code_simp
  then obtain ds where p0': "fst (process_pdf_page ?env ?doc 0 ''doc-1'' ''book.pdf'' False fresh_world) = Inr ds"
    by (cases "fst (process_pdf_page ?env ?doc 0 ''doc-1'' ''book.pdf'' False fresh_world)") auto
  have p1: "fst (process_pdf_page ?env ?doc 1 ''doc-1'' ''book.pdf'' False fresh_world)
              = Inl (Exn ''cannot load page'')" by code_simp
  have g: "progress fresh_world = []" by (simp add: fresh_world_def)
  note T = progress_after_extracted_pages [where env = ?env and file_bytes = "[]" and doc_pdf = ?doc
      and file_name = "''book.pdf''" and doc_id = "''doc-1''" and deep_ocr = False
      and f = silent_callback and w = fresh_world and total_pages = 3 and batch_docs = "[]"]
  from T [where i = 0 and page_docs = ds and e = "Exn ''cannot load page''"] o ret
  obtain n where "n = length ?doc"
    "progress (snd (ingest_pdf ?env [] ''book.pdf'' ''doc-1'' False (Some silent_callback) fresh_world))
       = progress fresh_world @ spec_progress ?env ?doc ''doc-1'' False [0..<n]"
    by blast
  with sp g have a: "progress (snd (ingest_pdf ?env [] ''book.pdf'' ''doc-1'' False
       (Some silent_callback) fresh_world)) = [(1, 3), (3, 3)]" by simp
  have b: "progress (snd (ingest_pages ?env ?doc [0] ''doc-1'' ''book.pdf'' False
                      (Some silent_callback) 3 [] fresh_world)) = [(1, 3)]"
    using T [where i = 0 and page_docs = ds and e = "Exn ''cannot load page''"] p0' g by simp
  have c: "progress (snd (ingest_pages ?env ?doc [1] ''doc-1'' ''book.pdf'' False
                      (Some silent_callback) 3 [] fresh_world)) = []"
    using T [where i = 1 and page_docs = ds and e = "Exn ''cannot load page''"] p1 g by simp
  from a b c show ?thesis by blast
qed

text \<open>
  Claim C1 as it is written fails: a PDF of one page whose page cannot be loaded is
  ingested to the end, the page is processed and skipped, and the callback is never
  invoked, although the claim expects the call (1, 1).
\<close>

theorem progress_on_failed_page_counterexample:
  "fst (ingest_pdf (pdf_env [broken_page]) [] ''book.pdf'' ''doc-1'' False (Some silent_callback)
          fresh_world) = Inr ''doc-1''
   \<and> printed_lines (snd (ingest_pdf (pdf_env [broken_page]) [] ''book.pdf'' ''doc-1'' False
          (Some silent_callback) fresh_world)) =
       [Processing_File ''book.pdf'' 1 False, Processing_Pages 1 1,
        Skipping_Page 1 (Exn ''cannot load page'')]
   \<and> progress (snd (ingest_pdf (pdf_env [broken_page]) [] ''book.pdf'' ''doc-1'' False
          (Some silent_callback) fresh_world)) = []"
  by code_simp

text \<open>
  Claim C2, as the code has it. The document handle opened at the start of the ingestion
  is closed when the ingestion completes and returns the document id. When the PDF cannot
  be opened there is no handle and the error leaves the pipeline. When a later step
  (splitting, vector-store persist, graph upsert) raises, the error leaves the pipeline
  and the handle is still open: \<open>doc_pdf.close()\<close> is the last statement of the function
  and stands in no \<open>finally\<close> clause.
\<close>

theorem handle_closed_on_return:
  "(fst (ingest_pdf env file_bytes file_name doc_id deep_ocr cb w) = Inr r \<longrightarrow>
      r = doc_id
      \<and> open_handles (snd (ingest_pdf env file_bytes file_name doc_id deep_ocr cb w)) = open_handles w)
   \<and> (fitz_open env file_bytes = Inl e \<longrightarrow>
        ingest_pdf env file_bytes file_name doc_id deep_ocr cb w = (Inl e, w))
   \<and> (fitz_open env file_bytes = Inr doc_pdf
        \<and> fst (ingest_pdf env file_bytes file_name doc_id deep_ocr cb w) = Inl e \<longrightarrow>
        open_handles (snd (ingest_pdf env file_bytes file_name doc_id deep_ocr cb w)) =
          Suc (open_handles w))"
proof -
  let ?r = "ingest_pdf env file_bytes file_name doc_id deep_ocr cb w"
  have opened: "(fst ?r = Inr r \<longrightarrow> r = doc_id \<and> open_handles (snd ?r) = open_handles w)
      \<and> (fst ?r = Inl e \<longrightarrow> open_handles (snd ?r) = Suc (open_handles w))"
    if o: "fitz_open env file_bytes = Inr d" for d r e
  proof -
    let ?w2 = "print (Processing_File file_name (length d) deep_ocr)
                (w\<lparr>open_handles := Suc (open_handles w)\<rparr>)"
    let ?b = "ingest_batches env d doc_id file_name deep_ocr cb (length d) 0 ?w2"
    obtain rb w3 where b: "?b = (rb, w3)" by (cases ?b)
    have h: "open_handles w3 = Suc (open_handles w)"
      using ingest_batches_handles [of env d doc_id file_name deep_ocr cb "length d" 0 ?w2] b
      by (simp add: print_def)
    show ?thesis
      unfolding ingest_pdf_opened [OF o] b using h by (cases rb) simp_all
  qed
  have 1: "fst ?r = Inr r \<longrightarrow> r = doc_id \<and> open_handles (snd ?r) = open_handles w"
  proof (cases "fitz_open env file_bytes")
    case (Inl x)
    then show ?thesis by (simp add: ingest_pdf_def)
  next
    case (Inr d)
    from opened [OF this] show ?thesis by blast
  qed
  have 2: "fitz_open env file_bytes = Inl e \<longrightarrow> ?r = (Inl e, w)"
    by (simp add: ingest_pdf_def)
  have 3: "fitz_open env file_bytes = Inr doc_pdf \<and> fst ?r = Inl e \<longrightarrow>
        open_handles (snd ?r) = Suc (open_handles w)"
    using opened [of doc_pdf] by blast
  from 1 2 3 show ?thesis by blast
qed

theorem handle_closed_on_return_witness:
  "fst (ingest_pdf (pdf_env [text_page]) [] ''book.pdf'' ''doc-1'' False None fresh_world) = Inr ''doc-1''
   \<and> open_handles (snd (ingest_pdf (pdf_env [text_page]) [] ''book.pdf'' ''doc-1'' False None
        fresh_world)) = 0
   \<and> ingest_pdf (quiet_env\<lparr>fitz_open := (\<lambda>b. Inl (Exn ''not a PDF''))\<rparr>) [] ''book.pdf'' ''doc-1''
        False None fresh_world = (Inl (Exn ''not a PDF''), fresh_world)
   \<and> fst (ingest_pdf ((pdf_env [text_page])\<lparr>split_documents := (\<lambda>ds. Inl (Exn ''splitter failed''))\<rparr>)
        [] ''book.pdf'' ''doc-1'' False None fresh_world) = Inl (Exn ''splitter failed'')
   \<and> open_handles (snd (ingest_pdf
        ((pdf_env [text_page])\<lparr>split_documents := (\<lambda>ds. Inl (Exn ''splitter failed''))\<rparr>)
        [] ''book.pdf'' ''doc-1'' False None fresh_world)) = 1"
proof -
  let ?ok = "pdf_env [text_page]"
  let ?bad = "quiet_env\<lparr>fitz_open := (\<lambda>b. Inl (Exn ''not a PDF''))\<rparr>"
  let ?sp = "(pdf_env [text_page])\<lparr>split_documents := (\<lambda>ds. Inl (Exn ''splitter failed''))\<rparr>"
  have g: "open_handles fresh_world = 0" by (simp add: fresh_world_def)
  have a: "fst (ingest_pdf ?ok [] ''book.pdf'' ''doc-1'' False None fresh_world) = Inr ''doc-1''"
    by code_simp
  have b: "fitz_open ?bad [] = Inl (Exn ''not a PDF'')" by simp
  have c: "fitz_open ?sp [] = Inr [text_page]" by (simp add: pdf_env_def quiet_env_def)
  have d: "fst (ingest_pdf ?sp [] ''book.pdf'' ''doc-1'' False None fresh_world)
             = Inl (Exn ''splitter failed'')" by code_simp
  note T = handle_closed_on_return [where file_bytes = "[]" and file_name = "''book.pdf''"
      and doc_id = "''doc-1''" and deep_ocr = False and cb = None and w = fresh_world]
  have "open_handles (snd (ingest_pdf ?ok [] ''book.pdf'' ''doc-1'' False None fresh_world)) = 0"
    using T [where env = ?ok and r = "''doc-1''" and e = "Exn ''x''" and doc_pdf = "[]"] a g by simp
  moreover have "ingest_pdf ?bad [] ''book.pdf'' ''doc-1'' False None fresh_world
       = (Inl (Exn ''not a PDF''), fresh_world)"
    using T [where env = ?bad and r = "''doc-1''" and e = "Exn ''not a PDF''" and doc_pdf = "[]"] b
    by blast
  moreover have "open_handles (snd (ingest_pdf ?sp [] ''book.pdf'' ''doc-1'' False None fresh_world)) = 1"
    using T [where env = ?sp and r = "''doc-1''" and e = "Exn ''splitter failed''"
        and doc_pdf = "[text_page]"] c d g by simp
  ultimately show ?thesis using a d by blast
qed

text \<open>
  Claim C2 as it is written fails: when the vector store refuses the chunks of a one-page
  PDF, the error leaves \<open>ingest_pdf\<close> and the handle that was opened is still open.
\<close>

theorem handle_left_open_counterexample:
  "open_handles fresh_world = 0
   \<and> fst (ingest_pdf ((pdf_env [text_page])\<lparr>add_documents := (\<lambda>c ds. Some (Exn ''connection lost''))\<rparr>)
        [] ''book.pdf'' ''doc-1'' False None fresh_world) = Inl (Exn ''connection lost'')
   \<and> open_handles (snd (ingest_pdf
        ((pdf_env [text_page])\<lparr>add_documents := (\<lambda>c ds. Some (Exn ''connection lost''))\<rparr>)
        [] ''book.pdf'' ''doc-1'' False None fresh_world)) = 1"
  by code_simp

end
